theory Spec2Isabelle
  imports Complex_Main
begin

section \<open>The double arithmetic the solver runs on\<close>

text \<open>
  The program computes on C \<^verbatim>\<open>double\<close>s. Their arithmetic is not fixed here: every
  function of the solver takes the arithmetic as a parameter, a record of the
  constants, operations and comparisons the source uses. What is proved for every such
  record holds for IEEE-754 doubles (with their rounding, signed zeros, infinities and
  NaN) as a special case.

  \<^item> \<open>d0\<close>, \<open>d1\<close>, \<open>dhalf\<close>: the literals \<^verbatim>\<open>0.0\<close>, \<^verbatim>\<open>1.0\<close> and \<^verbatim>\<open>0.5\<close>. The integer
    constant \<^verbatim>\<open>0\<close> that the source compares a double with (\<^verbatim>\<open>(a) > 0\<close>, \<^verbatim>\<open>C[n] == 0\<close>) is
    converted to the double \<^verbatim>\<open>0.0\<close> by the usual arithmetic conversions, so it is \<open>d0\<close>.
  \<^item> \<open>dneg\<close>: unary minus; \<open>dsub\<close>, \<open>dmul\<close>, \<open>ddiv\<close>: binary \<^verbatim>\<open>-\<close>, \<^verbatim>\<open>*\<close>, \<^verbatim>\<open>/\<close>.
  \<^item> \<open>dgt\<close>: \<^verbatim>\<open>></\<close>; \<open>deq\<close>: \<^verbatim>\<open>==\<close> (and \<^verbatim>\<open>a != b\<close> is \<open>\<not> deq a b\<close>).
  \<^item> \<open>dofint\<close>: the conversion of an \<^verbatim>\<open>int\<close> to \<^verbatim>\<open>double\<close>.
\<close>

record 'a fpu =
  d0 :: 'a
  d1 :: 'a
  dhalf :: 'a
  dneg :: "'a \<Rightarrow> 'a"
  dsub :: "'a \<Rightarrow> 'a \<Rightarrow> 'a"
  dmul :: "'a \<Rightarrow> 'a \<Rightarrow> 'a"
  ddiv :: "'a \<Rightarrow> 'a \<Rightarrow> 'a"
  dgt :: "'a \<Rightarrow> 'a \<Rightarrow> bool"
  deq :: "'a \<Rightarrow> 'a \<Rightarrow> bool"
  dofint :: "int \<Rightarrow> 'a"

text \<open>The macro \<^verbatim>\<open>#define ABS(a) (((a) > 0) ? (a) : -(a))\<close>.\<close>

definition ABS :: "'a fpu \<Rightarrow> 'a \<Rightarrow> 'a" where
  "ABS ops a = (if dgt ops a (d0 ops) then a else dneg ops a)"

text \<open>
  Exact arithmetic on the rationals, one instance of the parameter. It serves to run
  the solver on concrete systems.
\<close>

definition exact_fpu :: "rat fpu" where
  "exact_fpu = \<lparr> d0 = 0, d1 = 1, dhalf = 1 / 2, dneg = uminus,
       dsub = (\<lambda>x y. x - y), dmul = (\<lambda>x y. x * y), ddiv = (\<lambda>x y. x / y),
       dgt = (\<lambda>x y. x > y), deq = (\<lambda>x y. x = y), dofint = of_int \<rparr>"

section \<open>The global buffers\<close>

text \<open>
  \<^verbatim>\<open>double **matrix; double *B; double *C;\<close> The matrix is an array of row pointers,
  each to a row of its own, so it is a list of rows; exchanging two row pointers
  exchanges two elements of that list.
\<close>

record 'a gstate =
  matrix :: "'a list list"
  B :: "'a list"
  C :: "'a list"

text \<open>A state as \<^verbatim>\<open>allocate_memory(nsize)\<close> leaves it: \<open>nsize\<close> rows of \<open>nsize\<close> cells,
  and two vectors of \<open>nsize\<close> cells.\<close>

definition wf_state :: "nat \<Rightarrow> 'a gstate \<Rightarrow> bool" where
  "wf_state nsize s \<longleftrightarrow>
     length (matrix s) = nsize \<and> list_all (\<lambda>r. length r = nsize) (matrix s) \<and>
     length (B s) = nsize \<and> length (C s) = nsize"

text \<open>The assignment \<^verbatim>\<open>matrix[r][c] = v\<close>.\<close>

definition matrix_upd :: "'a list list \<Rightarrow> nat \<Rightarrow> nat \<Rightarrow> 'a \<Rightarrow> 'a list list" where
  "matrix_upd m r c v = m[r := (m ! r)[c := v]]"

text \<open>
  \<^verbatim>\<open>allocate_memory\<close> (its parameter is called \<^verbatim>\<open>size\<close> in the source). The size of the
  block of the rows is \<^verbatim>\<open>size*size*sizeof(double)\<close>, whose first product is computed in
  \<^verbatim>\<open>int\<close> (line 54): beyond \<open>INT_MAX\<close>, from \<open>size = 46341\<close> on for a 32-bit \<^verbatim>\<open>int\<close>, the
  signed overflow leaves the behaviour of the program undefined, and the function has
  no result (\<open>None\<close>). Otherwise one block of \<open>nsize * nsize\<close> doubles is cut into the
  rows, and the two vectors are blocks of their own. \<^verbatim>\<open>malloc\<close> does not initialise:
  \<open>junk\<close> gives the unknown content of each fresh cell. The products with \<^verbatim>\<open>sizeof\<close>
  are computed in \<^verbatim>\<open>size_t\<close>, taken to be 64 bits wide, and the three \<^verbatim>\<open>malloc\<close> calls are
  taken to succeed (the source asserts that they have).
\<close>

definition INT_MAX :: int where
  "INT_MAX = 2147483647"

definition allocate_memory :: "(nat \<Rightarrow> 'a) \<Rightarrow> nat \<Rightarrow> 'a gstate option" where
  "allocate_memory junk nsize =
     (if int nsize * int nsize > INT_MAX then None
      else Some
        \<lparr> matrix = map (\<lambda>i. map (\<lambda>j. junk (i * nsize + j)) [0..<nsize]) [0..<nsize],
          B = map (\<lambda>i. junk (nsize * nsize + i)) [0..<nsize],
          C = map (\<lambda>i. junk (nsize * nsize + nsize + i)) [0..<nsize] \<rparr>)"

section \<open>Loops\<close>

text \<open>\<^verbatim>\<open>for (i = lo; i < n; i++) body\<close>, on a state.\<close>

function for_up :: "nat \<Rightarrow> nat \<Rightarrow> (nat \<Rightarrow> 's \<Rightarrow> 's) \<Rightarrow> 's \<Rightarrow> 's" where
  "for_up i n body s = (if i < n then for_up (i + 1) n body (body i s) else s)"
  by pat_completeness auto
termination
  by (relation "measure (\<lambda>(i, n, body, s). n - i)") auto

text \<open>The same loop with a body that can end the run.\<close>

function for_up_err :: "nat \<Rightarrow> nat \<Rightarrow> (nat \<Rightarrow> 's \<Rightarrow> 'e + 's) \<Rightarrow> 's \<Rightarrow> 'e + 's" where
  "for_up_err i n body s =
     (if i < n then
        (case body i s of Inl e \<Rightarrow> Inl e | Inr s' \<Rightarrow> for_up_err (i + 1) n body s')
      else Inr s)"
  by pat_completeness auto
termination
  by (relation "measure (\<lambda>(i, n, body, s). n - i)") auto

text \<open>\<^verbatim>\<open>for (i = hi; i >= lo; i--) body\<close> and \<^verbatim>\<open>for (i = hi; i > lo; i--) body\<close>, on
  \<^verbatim>\<open>int\<close> counters (the first one ends with the counter below \<open>lo\<close>).\<close>

function for_down_ge :: "int \<Rightarrow> int \<Rightarrow> (int \<Rightarrow> 's \<Rightarrow> 's) \<Rightarrow> 's \<Rightarrow> 's" where
  "for_down_ge i lo body s = (if i \<ge> lo then for_down_ge (i - 1) lo body (body i s) else s)"
  by pat_completeness auto
termination
  by (relation "measure (\<lambda>(i, lo, body, s). nat (i + 1 - lo))") auto

function for_down_gt :: "int \<Rightarrow> int \<Rightarrow> (int \<Rightarrow> 's \<Rightarrow> 's) \<Rightarrow> 's \<Rightarrow> 's" where
  "for_down_gt i lo body s = (if i > lo then for_down_gt (i - 1) lo body (body i s) else s)"
  by pat_completeness auto
termination
  by (relation "measure (\<lambda>(i, lo, body, s). nat (i - lo))") auto

declare for_up.simps [simp del] for_up_err.simps [simp del]
  for_down_ge.simps [simp del] for_down_gt.simps [simp del]

section \<open>The solver\<close>

text \<open>
  The dimension and the counters that only go up are natural numbers; the counters of
  \<open>solveGauss\<close>, which go down to \<open>-1\<close>, are integers. All of them stay between \<open>-1\<close> and
  \<open>nsize\<close>, and the \<^verbatim>\<open>int\<close> expressions \<^verbatim>\<open>2*(j+1)\<close> and \<^verbatim>\<open>2*(i+1)\<close> of \<open>initMatrix\<close> are at
  most \<open>2 * nsize\<close>, so no \<^verbatim>\<open>int\<close> of the solver overflows for a dimension whose matrix
  fits in memory. Every index is within bounds on buffers of dimension \<open>nsize\<close>
  (\<open>wf_state\<close>), the states the theorems are about.
\<close>

subsection \<open>initMatrix\<close>

text \<open>Lines 76 to 81. The value assigned to \<^verbatim>\<open>matrix[i][j]\<close> is an \<^verbatim>\<open>int\<close>, converted to
  \<^verbatim>\<open>double\<close> by the assignment.\<close>

definition initMatrix :: "'a fpu \<Rightarrow> nat \<Rightarrow> 'a gstate \<Rightarrow> 'a gstate" where
  "initMatrix ops nsize s =
     for_up 0 nsize (\<lambda>i s.
       let s1 = for_up 0 nsize (\<lambda>j t.
                  t\<lparr>matrix := matrix_upd (matrix t) i j
                       (dofint ops (if j < i then 2 * (int j + 1) else 2 * (int i + 1)))\<rparr>) s
       in s1\<lparr>B := (B s1)[i := dofint ops (int i)]\<rparr>) s"

subsection \<open>getPivot\<close>

text \<open>The ways the process ends other than by returning from \<^verbatim>\<open>main\<close>:
  \<^verbatim>\<open>exit(-1)\<close> after "The matrix is singular", and a failed \<^verbatim>\<open>assert\<close>.\<close>

datatype failure = Singular | AssertFailed

text \<open>Lines 92 to 101: the scan of column \<open>currow\<close> from row \<open>currow\<close> down, which
  yields \<open>(big, irow)\<close>.\<close>

definition pivot_scan :: "'a fpu \<Rightarrow> nat \<Rightarrow> nat \<Rightarrow> 'a gstate \<Rightarrow> 'a \<times> nat" where
  "pivot_scan ops nsize currow s =
     for_up (currow + 1) nsize
       (\<lambda>i (big, irow).
          let tmp = ABS ops (matrix s ! i ! currow)
          in if dgt ops tmp big then (tmp, i) else (big, irow))
       (ABS ops (matrix s ! currow ! currow), currow)"

text \<open>Lines 109 and 110: \<^verbatim>\<open>PSWAP(matrix[irow], matrix[currow]); DSWAP(B[irow], B[currow]);\<close>
  each macro is \<^verbatim>\<open>tmp = a; a = b; b = tmp;\<close>.\<close>

definition swap_rows :: "nat \<Rightarrow> nat \<Rightarrow> 'a gstate \<Rightarrow> 'a gstate" where
  "swap_rows irow currow s =
     (let ptmp = matrix s ! irow;
          s1 = s\<lparr>matrix := (matrix s)[irow := matrix s ! currow]\<rparr>;
          s2 = s1\<lparr>matrix := (matrix s1)[currow := ptmp]\<rparr>;
          dtmp = B s2 ! irow;
          s3 = s2\<lparr>B := (B s2)[irow := B s2 ! currow]\<rparr>
      in s3\<lparr>B := (B s3)[currow := dtmp]\<rparr>)"

text \<open>Lines 113 to 120: the pivot row is divided by the pivot.\<close>

definition normalize_row :: "'a fpu \<Rightarrow> nat \<Rightarrow> nat \<Rightarrow> 'a gstate \<Rightarrow> 'a gstate" where
  "normalize_row ops nsize currow s =
     (let pivotVal = matrix s ! currow ! currow
      in if \<not> deq ops pivotVal (d1 ops) then
           let s1 = s\<lparr>matrix := matrix_upd (matrix s) currow currow (d1 ops)\<rparr>;
               s2 = for_up (currow + 1) nsize (\<lambda>i t.
                      t\<lparr>matrix := matrix_upd (matrix t) currow i
                           (ddiv ops (matrix t ! currow ! i) pivotVal)\<rparr>) s1
           in s2\<lparr>B := (B s2)[currow := ddiv ops (B s2 ! currow) pivotVal]\<rparr>
         else s)"

text \<open>Lines 89 to 121. \<^verbatim>\<open>exit(-1)\<close> on a zero \<open>big\<close> is the result \<open>Inl Singular\<close>.\<close>

definition getPivot :: "'a fpu \<Rightarrow> nat \<Rightarrow> nat \<Rightarrow> 'a gstate \<Rightarrow> failure + 'a gstate" where
  "getPivot ops nsize currow s =
     (case pivot_scan ops nsize currow s of (big, irow) \<Rightarrow>
        if deq ops big (d0 ops) then Inl Singular
        else Inr (normalize_row ops nsize currow
                    (if irow \<noteq> currow then swap_rows irow currow s else s)))"

subsection \<open>computeGauss\<close>

text \<open>Lines 132 to 137: the body of the loop over the rows \<open>j\<close> below the pivot row \<open>i\<close>.\<close>

definition eliminate_row :: "'a fpu \<Rightarrow> nat \<Rightarrow> nat \<Rightarrow> nat \<Rightarrow> 'a gstate \<Rightarrow> 'a gstate" where
  "eliminate_row ops nsize i j s =
     (let pivotVal = matrix s ! j ! i;
          s1 = s\<lparr>matrix := matrix_upd (matrix s) j i (d0 ops)\<rparr>;
          s2 = for_up (i + 1) nsize (\<lambda>k t.
                 t\<lparr>matrix := matrix_upd (matrix t) j k
                      (dsub ops (matrix t ! j ! k) (dmul ops pivotVal (matrix t ! i ! k)))\<rparr>) s1
      in s2\<lparr>B := (B s2)[j := dsub ops (B s2 ! j) (dmul ops pivotVal (B s2 ! i))]\<rparr>)"

text \<open>Lines 131 to 138: the loop over the rows below the pivot row.\<close>

definition eliminate :: "'a fpu \<Rightarrow> nat \<Rightarrow> nat \<Rightarrow> 'a gstate \<Rightarrow> 'a gstate" where
  "eliminate ops nsize i s = for_up (i + 1) nsize (\<lambda>j t. eliminate_row ops nsize i j t) s"

text \<open>Lines 130 to 138: one pass of the outer loop.\<close>

definition gauss_step :: "'a fpu \<Rightarrow> nat \<Rightarrow> nat \<Rightarrow> 'a gstate \<Rightarrow> failure + 'a gstate" where
  "gauss_step ops nsize i s =
     (case getPivot ops nsize i s of
        Inl e \<Rightarrow> Inl e
      | Inr s1 \<Rightarrow> Inr (eliminate ops nsize i s1))"

text \<open>Lines 127 to 140: the outer loop, which a failing \<open>getPivot\<close> ends.\<close>

definition computeGauss :: "'a fpu \<Rightarrow> nat \<Rightarrow> 'a gstate \<Rightarrow> failure + 'a gstate" where
  "computeGauss ops nsize s = for_up_err 0 nsize (gauss_step ops nsize) s"

subsection \<open>solveGauss\<close>

text \<open>Lines 147 to 153. The counters \<open>row\<close> and \<open>col\<close> are \<^verbatim>\<open>int\<close>s: \<open>row\<close> ends at \<open>-1\<close>. The
  function is called with \<open>nsize \<ge> 1\<close> only (the option loop keeps \<open>nsize\<close> positive), so
  \<open>nsize - 1\<close> is an index.\<close>

definition solveGauss :: "'a fpu \<Rightarrow> nat \<Rightarrow> 'a gstate \<Rightarrow> 'a gstate" where
  "solveGauss ops nsize s =
     (let s0 = s\<lparr>C := (C s)[nsize - 1 := B s ! (nsize - 1)]\<rparr>
      in for_down_ge (int nsize - 2) 0 (\<lambda>row t.
           let t1 = t\<lparr>C := (C t)[nat row := B t ! nat row]\<rparr>
           in for_down_gt (int nsize - 1) row (\<lambda>col u.
                u\<lparr>C := (C u)[nat row :=
                     dsub ops (C u ! nat row)
                       (dmul ops (matrix u ! nat row ! nat col) (C u ! nat col))]\<rparr>) t1) s0)"

subsection \<open>main\<close>

text \<open>
  The command line, as the loop of \<^verbatim>\<open>main\<close> sees it: one element for each value
  \<^verbatim>\<open>getopt(argc, argv, "s:")\<close> returns before it returns \<open>-1\<close>. \<open>Opt_s v\<close> is the
  return value \<^verbatim>\<open>'s'\<close>, with \<open>v\<close> what \<^verbatim>\<open>atoi(optarg)\<close> yields; \<open>Opt_other\<close> is any
  other return value (\<^verbatim>\<open>'?'\<close>: a flag that is not \<^verbatim>\<open>-s\<close>, or \<^verbatim>\<open>-s\<close> without its value).
\<close>

datatype getopt_result = Opt_s int | Opt_other

text \<open>What the program prints (the text of a line is kept as its kind and its number).\<close>

datatype printed =
    Warn_negative int    \<comment> \<open>\<^verbatim>\<open>"  -s is negative... using %d\n"\<close>\<close>
  | Msg_singular         \<comment> \<open>\<^verbatim>\<open>"The matrix is singular\n"\<close>\<close>
  | Msg_size int         \<comment> \<open>\<^verbatim>\<open>"Size: %d rows\n"\<close>\<close>
  | Msg_time             \<comment> \<open>\<^verbatim>\<open>"Time: %f seconds\n"\<close>\<close>
  | Msg_correct          \<comment> \<open>\<^verbatim>\<open>"Correct solution found.\n"\<close>\<close>

text \<open>How the process ends: \<^verbatim>\<open>main\<close> returns (status 0), \<^verbatim>\<open>exit(-1)\<close>, \<^verbatim>\<open>abort\<close> from a
  failed assertion, or nothing is known of it (\<open>Undefined\<close>: the \<^verbatim>\<open>int\<close> overflow in
  \<^verbatim>\<open>allocate_memory\<close>).\<close>

datatype exit_kind = Returned | Exit_minus_1 | Aborted | Undefined

text \<open>Lines 165 to 180: the option loop. It yields \<open>nsize\<close> and the warnings printed, or
  stops at \<^verbatim>\<open>assert(0)\<close> with the warnings printed so far.\<close>

fun parse_args :: "getopt_result list \<Rightarrow> int \<Rightarrow> printed list \<Rightarrow> printed list + (int \<times> printed list)" where
  "parse_args [] nsize out = Inr (nsize, out)"
| "parse_args (Opt_s s # rest) nsize out =
     (if s > 0 then parse_args rest s out
      else parse_args rest nsize (out @ [Warn_negative nsize]))"
| "parse_args (Opt_other # rest) nsize out = Inl out"

text \<open>Lines 195 to 202: the check of the solution.\<close>

definition verify :: "'a fpu \<Rightarrow> nat \<Rightarrow> 'a gstate \<Rightarrow> failure + unit" where
  "verify ops nsize s =
     for_up_err 0 nsize (\<lambda>n u.
       if n = 0 then
         (if deq ops (C s ! n) (dneg ops (dhalf ops)) then Inr u else Inl AssertFailed)
       else if n = nsize - 1 then
         (if deq ops (C s ! n) (dhalf ops) then Inr u else Inl AssertFailed)
       else
         (if deq ops (C s ! n) (d0 ops) then Inr u else Inl AssertFailed)) ()"

text \<open>Lines 185 to 187: \<^verbatim>\<open>initMatrix(nsize); computeGauss(nsize); solveGauss(nsize);\<close>\<close>

definition solve :: "'a fpu \<Rightarrow> nat \<Rightarrow> 'a gstate \<Rightarrow> failure + 'a gstate" where
  "solve ops nsize s =
     (case computeGauss ops nsize (initMatrix ops nsize s) of
        Inl e \<Rightarrow> Inl e
      | Inr s1 \<Rightarrow> Inr (solveGauss ops nsize s1))"

text \<open>Lines 159 to 204. The lines \<^verbatim>\<open>main\<close> prints, and the way the process ends. The
  elapsed time is printed and not modelled.\<close>

definition main :: "'a fpu \<Rightarrow> (nat \<Rightarrow> 'a) \<Rightarrow> getopt_result list \<Rightarrow> printed list \<times> exit_kind" where
  "main ops junk argv =
     (case parse_args argv 1024 [] of
        Inl out \<Rightarrow> (out, Aborted)
      | Inr (nsize, out) \<Rightarrow>
          (case allocate_memory junk (nat nsize) of
             None \<Rightarrow> (out, Undefined)
           | Some mem \<Rightarrow>
               (case solve ops (nat nsize) mem of
                  Inl e \<Rightarrow> (out @ [Msg_singular], Exit_minus_1)
                | Inr s \<Rightarrow>
                    (case verify ops (nat nsize) s of
                       Inl e \<Rightarrow> (out @ [Msg_size nsize, Msg_time], Aborted)
                     | Inr u \<Rightarrow> (out @ [Msg_size nsize, Msg_time, Msg_correct], Returned)))))"

subsection \<open>Notions used to state what the option loop does\<close>

text \<open>An occurrence of \<^verbatim>\<open>-s\<close> with a positive value.\<close>

fun positive_s :: "getopt_result \<Rightarrow> bool" where
  "positive_s (Opt_s v) = (0 < v)"
| "positive_s Opt_other = False"

text \<open>A printed line that is the warning of the option loop.\<close>

definition is_warning :: "printed \<Rightarrow> bool" where
  "is_warning w = (case w of Warn_negative k \<Rightarrow> True | _ \<Rightarrow> False)"

subsection \<open>Notions used to state what the solver does\<close>

text \<open>The absolute value of the entry of row \<open>r\<close> in column \<open>k\<close>, as the scan computes it.\<close>

definition col_abs :: "'a fpu \<Rightarrow> 'a gstate \<Rightarrow> nat \<Rightarrow> nat \<Rightarrow> 'a" where
  "col_abs ops s k r = ABS ops (matrix s ! r ! k)"

text \<open>The entries of the rows below the pivot row \<open>i\<close> after the elimination, from the
  state \<open>s\<close> before it.\<close>

definition eliminated_entry :: "'a fpu \<Rightarrow> nat \<Rightarrow> 'a gstate \<Rightarrow> nat \<Rightarrow> nat \<Rightarrow> 'a" where
  "eliminated_entry ops i s j c =
     (if c = i then d0 ops
      else if i < c then
        dsub ops (matrix s ! j ! c) (dmul ops (matrix s ! j ! i) (matrix s ! i ! c))
      else matrix s ! j ! c)"

definition eliminated_rhs :: "'a fpu \<Rightarrow> nat \<Rightarrow> 'a gstate \<Rightarrow> nat \<Rightarrow> 'a" where
  "eliminated_rhs ops i s j = dsub ops (B s ! j) (dmul ops (matrix s ! j ! i) (B s ! i))"

text \<open>The first \<open>k\<close> passes of the outer loop of \<open>computeGauss\<close>: the state before pass \<open>k\<close>,
  or the failure met on the way.\<close>

definition gauss_steps :: "'a fpu \<Rightarrow> nat \<Rightarrow> nat \<Rightarrow> 'a gstate \<Rightarrow> failure + 'a gstate" where
  "gauss_steps ops nsize k s = for_up_err 0 k (gauss_step ops nsize) s"

text \<open>The entry \<open>row\<close> of the solution as the specification words it: start from \<open>b[row]\<close>
  and, for each column from \<open>n - 1\<close> down to \<open>row + 1\<close>, subtract \<open>A[row][col] * x[col]\<close>.\<close>

definition back_substitution_entry ::
    "'a fpu \<Rightarrow> nat \<Rightarrow> 'a list list \<Rightarrow> 'a list \<Rightarrow> 'a list \<Rightarrow> nat \<Rightarrow> 'a" where
  "back_substitution_entry ops n A b x row =
     fold (\<lambda>col acc. dsub ops acc (dmul ops (A ! row ! col) (x ! col)))
       (rev [row + 1 ..< n]) (b ! row)"

text \<open>The comparison \<^verbatim>\<open>></\<close> orders the values \<open>vs\<close>: on them it is asymmetric, and a value
  greater than \<open>b\<close> is greater than every value that is not greater than \<open>b\<close>. Doubles
  other than NaN are ordered so.\<close>

definition gt_strict_weak :: "'a fpu \<Rightarrow> 'a list \<Rightarrow> bool" where
  "gt_strict_weak ops vs \<longleftrightarrow>
     (\<forall>a\<in>set vs. \<forall>b\<in>set vs. dgt ops a b \<longrightarrow> \<not> dgt ops b a) \<and>
     (\<forall>a\<in>set vs. \<forall>b\<in>set vs. \<forall>c\<in>set vs. dgt ops c b \<and> \<not> dgt ops a b \<longrightarrow> dgt ops c a)"

text \<open>
  The arithmetic is exact on the values met when the solver runs on the matrix of
  \<open>initMatrix\<close> in dimension \<open>n\<close>: the integers from 0 to \<open>2 * n\<close> and the values \<open>0.5\<close> and
  \<open>-0.5\<close>. Each line is one operation of that run with its exact result. IEEE-754
  double arithmetic has all of them as long as the integers up to \<open>2 * n\<close> are doubles,
  which holds for every \<open>n\<close> an \<^verbatim>\<open>int\<close> can hold; so has \<open>exact_fpu\<close>.
\<close>

definition exact_on_run :: "'a fpu \<Rightarrow> nat \<Rightarrow> bool" where
  "exact_on_run ops n \<longleftrightarrow>
     dofint ops 0 = d0 ops \<and> dofint ops 1 = d1 ops \<and>
     dgt ops (dofint ops 2) (d0 ops) \<and> \<not> dgt ops (dofint ops 2) (dofint ops 2) \<and>
     \<not> deq ops (dofint ops 2) (d0 ops) \<and> \<not> deq ops (dofint ops 2) (d1 ops) \<and>
     ddiv ops (dofint ops 2) (dofint ops 2) = d1 ops \<and>
     ddiv ops (d0 ops) (dofint ops 2) = d0 ops \<and>
     ddiv ops (d1 ops) (dofint ops 2) = dhalf ops \<and>
     dmul ops (dofint ops 2) (d1 ops) = dofint ops 2 \<and>
     dmul ops (dofint ops 2) (d0 ops) = d0 ops \<and>
     dmul ops (dofint ops 2) (dhalf ops) = d1 ops \<and>
     dmul ops (d1 ops) (dhalf ops) = dhalf ops \<and>
     dmul ops (d1 ops) (d0 ops) = d0 ops \<and>
     (\<forall>m\<in>{2 .. 2 * int n}. dsub ops (dofint ops m) (dofint ops 2) = dofint ops (m - 2)) \<and>
     (\<forall>m\<in>{0 .. int n}. dsub ops (dofint ops m) (d0 ops) = dofint ops m) \<and>
     (\<forall>m\<in>{1 .. int n}. dsub ops (dofint ops m) (d1 ops) = dofint ops (m - 1)) \<and>
     dsub ops (dhalf ops) (dhalf ops) = d0 ops \<and>
     dsub ops (d0 ops) (dhalf ops) = dneg ops (dhalf ops) \<and>
     dsub ops (dneg ops (dhalf ops)) (d0 ops) = dneg ops (dhalf ops) \<and>
     deq ops (dneg ops (dhalf ops)) (dneg ops (dhalf ops)) \<and>
     deq ops (dhalf ops) (dhalf ops) \<and> deq ops (d0 ops) (d0 ops) \<and>
     \<not> deq ops (d0 ops) (dneg ops (dhalf ops))"

text \<open>The state after \<open>k\<close> passes of \<open>computeGauss\<close> on the matrix of \<open>initMatrix\<close>, under
  such an arithmetic: the rows before \<open>k\<close> are final (zeros, then ones from the diagonal
  on, right-hand side \<open>0.0\<close> in row 0 and \<open>0.5\<close> below), and the rows from \<open>k\<close> on hold
  the matrix of \<open>initMatrix\<close> of the remaining dimension behind \<open>k\<close> zeros.\<close>

definition reduced_upto :: "'a fpu \<Rightarrow> nat \<Rightarrow> nat \<Rightarrow> 'a gstate \<Rightarrow> bool" where
  "reduced_upto ops n k t \<longleftrightarrow>
     wf_state n t \<and>
     (\<forall>r c. r < n \<longrightarrow> c < n \<longrightarrow>
        matrix t ! r ! c =
          (if r < k then (if c < r then d0 ops else d1 ops)
           else if c < k then d0 ops
           else dofint ops (2 * (int (min r c) + 1 - int k)))) \<and>
     (\<forall>r. r < n \<longrightarrow>
        B t ! r =
          (if r < k then (if r = 0 then d0 ops else dhalf ops)
           else dofint ops (int r - int (k - 1))))"

text \<open>
  The values \<open>xs\<close> are numbers: \<open>v\<close> gives each of them, its negation and \<open>0.0\<close> a
  rational value that unary minus, \<^verbatim>\<open>></\<close> and \<^verbatim>\<open>==\<close> respect. Doubles other than NaN have
  such values: the number they stand for (both zeros stand for 0), and for an infinity
  any value beyond those of the finite doubles at hand. A NaN has none, since
  \<^verbatim>\<open>NaN == NaN\<close> is false.
\<close>

definition numeric_on :: "'a fpu \<Rightarrow> ('a \<Rightarrow> rat) \<Rightarrow> 'a list \<Rightarrow> bool" where
  "numeric_on ops v xs \<longleftrightarrow>
     v (d0 ops) = 0 \<and> (\<forall>x\<in>set xs. v (dneg ops x) = - v x) \<and>
     (\<forall>a\<in>set xs \<union> dneg ops ` set xs \<union> {d0 ops}.
      \<forall>b\<in>set xs \<union> dneg ops ` set xs \<union> {d0 ops}.
        (dgt ops a b \<longleftrightarrow> v b < v a) \<and> (deq ops a b \<longleftrightarrow> v a = v b))"

subsection \<open>Two more arithmetics\<close>

text \<open>
  An arithmetic with a NaN: the rationals, computed exactly, and one more value \<open>None\<close>
  that every operation hands on and that compares false with every value, itself
  included, as the NaN of doubles does. (A division by zero gives the NaN here; doubles
  have infinities as well.)
\<close>

definition nan_fpu :: "rat option fpu" where
  "nan_fpu = \<lparr> d0 = Some 0, d1 = Some 1, dhalf = Some (1 / 2),
       dneg = map_option uminus,
       dsub = (\<lambda>x y. case (x, y) of (Some a, Some b) \<Rightarrow> Some (a - b) | _ \<Rightarrow> None),
       dmul = (\<lambda>x y. case (x, y) of (Some a, Some b) \<Rightarrow> Some (a * b) | _ \<Rightarrow> None),
       ddiv = (\<lambda>x y. case (x, y) of
                 (Some a, Some b) \<Rightarrow> if b = 0 then None else Some (a / b) | _ \<Rightarrow> None),
       dgt = (\<lambda>x y. case (x, y) of (Some a, Some b) \<Rightarrow> a > b | _ \<Rightarrow> False),
       deq = (\<lambda>x y. case (x, y) of (Some a, Some b) \<Rightarrow> a = b | _ \<Rightarrow> False),
       dofint = (\<lambda>i. Some (of_int i)) \<rparr>"

text \<open>
  An arithmetic that rounds as doubles do on integers of magnitude up to \<open>2^54\<close>. A
  double has a significand of 53 bits: it holds every integer of magnitude up to
  \<open>2^53 = 9007199254740992\<close>, and between \<open>2^53\<close> and \<open>2^54\<close> the even integers only. So
  \<open>round53\<close> keeps a result of magnitude up to \<open>2^53\<close> as it is, and rounds a greater one to
  the nearest even integer, a tie to the one with the even significand (the multiple of
  4), which is rounding to nearest, ties to even. \<open>round53_add\<close> is the addition \<^verbatim>\<open>+\<close> of
  this arithmetic, which the solver itself does not use.
\<close>

definition round53 :: "rat \<Rightarrow> rat" where
  "round53 x =
     (if \<bar>x\<bar> \<le> 9007199254740992 then x
      else let f = \<lfloor>x / 2\<rfloor>; d = x / 2 - of_int f
           in if d < 1 / 2 then of_int (2 * f)
              else if 1 / 2 < d then of_int (2 * (f + 1))
              else if even f then of_int (2 * f) else of_int (2 * (f + 1)))"

definition round53_fpu :: "rat fpu" where
  "round53_fpu = \<lparr> d0 = 0, d1 = 1, dhalf = 1 / 2, dneg = uminus,
       dsub = (\<lambda>x y. round53 (x - y)), dmul = (\<lambda>x y. round53 (x * y)),
       ddiv = (\<lambda>x y. round53 (x / y)),
       dgt = (\<lambda>x y. x > y), deq = (\<lambda>x y. x = y), dofint = (\<lambda>i. round53 (of_int i)) \<rparr>"

definition round53_add :: "rat \<Rightarrow> rat \<Rightarrow> rat" where
  "round53_add x y = round53 (x + y)"

section \<open>Facts about the loops\<close>

lemma for_up_done: "n \<le> i \<Longrightarrow> for_up i n body s = s"
  by (subst for_up.simps) simp

lemma for_up_unfold: "i < n \<Longrightarrow> for_up i n body s = for_up (Suc i) n body (body i s)"
  by (subst for_up.simps) simp

lemma for_up_last: "i \<le> n \<Longrightarrow> for_up i (Suc n) body s = body n (for_up i n body s)"
proof (induction i n body s rule: for_up.induct)
  case (1 i n body s)
  show ?case
  proof (cases "i < n")
    case True
    with 1 show ?thesis by (simp add: for_up_unfold)
  next
    case False
    with 1 have "i = n" by simp
    then show ?thesis by (simp add: for_up_unfold for_up_done)
  qed
qed

lemma for_up_rule:
  assumes "P lo s" and "lo \<le> n"
    and "\<And>i t. lo \<le> i \<Longrightarrow> i < n \<Longrightarrow> P i t \<Longrightarrow> P (Suc i) (body i t)"
  shows "P n (for_up lo n body s)"
  using assms(2,3)
proof (induction n rule: dec_induct)
  case base
  then show ?case using assms(1) by (simp add: for_up_done)
next
  case (step k)
  then show ?case by (simp add: for_up_last)
qed

lemma for_up_err_done: "n \<le> i \<Longrightarrow> for_up_err i n body s = Inr s"
  by (subst for_up_err.simps) simp

lemma for_up_err_unfold:
  "i < n \<Longrightarrow> for_up_err i n body s =
     (case body i s of Inl e \<Rightarrow> Inl e | Inr s' \<Rightarrow> for_up_err (Suc i) n body s')"
  by (subst for_up_err.simps) (simp split: sum.splits)

lemma for_up_err_last:
  "i \<le> n \<Longrightarrow> for_up_err i (Suc n) body s =
     (case for_up_err i n body s of Inl e \<Rightarrow> Inl e | Inr t \<Rightarrow> body n t)"
proof (induction i n body s rule: for_up_err.induct)
  case (1 i n body s)
  show ?case
  proof (cases "i < n")
    case True
    with 1 show ?thesis by (simp add: for_up_err_unfold split: sum.splits)
  next
    case False
    with 1 have "i = n" by simp
    then show ?thesis by (simp add: for_up_err_unfold for_up_err_done split: sum.splits)
  qed
qed

lemma for_up_err_rule:
  assumes "for_up_err lo n body s = Inr s'" and "P lo s" and "lo \<le> n"
    and "\<And>i t t'. lo \<le> i \<Longrightarrow> i < n \<Longrightarrow> P i t \<Longrightarrow> body i t = Inr t' \<Longrightarrow> P (Suc i) t'"
  shows "P n s'"
  using assms(3,1,4)
proof (induction n arbitrary: s' rule: dec_induct)
  case base
  then show ?case using assms(2) by (simp add: for_up_err_done)
next
  case (step k)
  from step.prems(1) step.hyps(1) obtain t where
    t: "for_up_err lo k body s = Inr t" and b: "body k t = Inr s'"
    by (auto simp: for_up_err_last split: sum.splits)
  have "P k t" using t step by simp
  then show ?case using b step.hyps step.prems(2) by simp
qed

lemma for_down_gt_rule:
  "P i s \<Longrightarrow> lo \<le> i \<Longrightarrow> (\<And>j t. lo < j \<Longrightarrow> j \<le> i \<Longrightarrow> P j t \<Longrightarrow> P (j - 1) (body j t))
     \<Longrightarrow> P lo (for_down_gt i lo body s)"
proof (induction i lo body s rule: for_down_gt.induct)
  case (1 i lo body s)
  show ?case
  proof (cases "lo < i")
    case True
    have "P lo (for_down_gt (i - 1) lo body (body i s))"
      using True 1 by (intro "1.IH") auto
    then show ?thesis using True by (subst for_down_gt.simps) simp
  next
    case False
    with 1 have "i = lo" by simp
    then show ?thesis using 1 by (subst for_down_gt.simps) simp
  qed
qed

lemma for_down_ge_rule:
  "P i s \<Longrightarrow> lo - 1 \<le> i \<Longrightarrow> (\<And>j t. lo \<le> j \<Longrightarrow> j \<le> i \<Longrightarrow> P j t \<Longrightarrow> P (j - 1) (body j t))
     \<Longrightarrow> P (lo - 1) (for_down_ge i lo body s)"
proof (induction i lo body s rule: for_down_ge.induct)
  case (1 i lo body s)
  show ?case
  proof (cases "lo \<le> i")
    case True
    have "P (lo - 1) (for_down_ge (i - 1) lo body (body i s))"
      using True 1 by (intro "1.IH") auto
    then show ?thesis using True by (subst for_down_ge.simps) simp
  next
    case False
    with 1 have "i = lo - 1" by simp
    then show ?thesis using 1 by (subst for_down_ge.simps) simp
  qed
qed

section \<open>The buffers: shape, row swap, frame of back-substitution\<close>

lemma wf_stateD:
  "wf_state nsize s \<Longrightarrow> length (matrix s) = nsize"
  "wf_state nsize s \<Longrightarrow> r < nsize \<Longrightarrow> length (matrix s ! r) = nsize"
  "wf_state nsize s \<Longrightarrow> length (B s) = nsize"
  "wf_state nsize s \<Longrightarrow> length (C s) = nsize"
  by (auto simp: wf_state_def list_all_length)

lemma wf_state_C_update [simp]:
  "wf_state nsize (s\<lparr>C := (C s)[i := v]\<rparr>) = wf_state nsize s"
  by (simp add: wf_state_def)

lemma solveGauss_inner_frame:
  "matrix (for_down_gt hi row (\<lambda>col u.
      u\<lparr>C := (C u)[nat row := f col u]\<rparr>) t) = matrix t \<and>
   B (for_down_gt hi row (\<lambda>col u. u\<lparr>C := (C u)[nat row := f col u]\<rparr>) t) = B t \<and>
   length (C (for_down_gt hi row (\<lambda>col u. u\<lparr>C := (C u)[nat row := f col u]\<rparr>) t)) = length (C t)"
proof (cases "row \<le> hi")
  case True
  then show ?thesis
    by (rule for_down_gt_rule [where P = "\<lambda>_ u. matrix u = matrix t \<and> B u = B t \<and> length (C u) = length (C t)", rotated]) auto
next
  case False
  then show ?thesis by (subst (1 2 3) for_down_gt.simps) simp
qed

text \<open>
  Claim C8. Back-substitution reads the coefficient matrix and the right-hand side and
  writes the solution vector only: for \<open>nsize \<ge> 1\<close>, on buffers of dimension \<open>nsize\<close>,
  the matrix and the vector \<open>B\<close> after \<open>solveGauss\<close> are the ones before the call, entry
  by entry (and the buffers keep their dimension).
\<close>

theorem solveGauss_frame:
  assumes "1 \<le> nsize" and "wf_state nsize s"
  shows "matrix (solveGauss ops nsize s) = matrix s \<and> B (solveGauss ops nsize s) = B s \<and>
         wf_state nsize (solveGauss ops nsize s)"
proof -
  let ?P = "\<lambda>(_::int) t. matrix t = matrix s \<and> B t = B s \<and> length (C t) = length (C s)"
  have "?P (0 - 1) (solveGauss ops nsize s)"
    unfolding solveGauss_def Let_def
    by (rule for_down_ge_rule [where P = ?P]) (use assms(1) in \<open>auto simp: solveGauss_inner_frame\<close>)
  then show ?thesis using assms(2) by (simp add: wf_state_def)
qed

theorem solveGauss_frame_witness:
  "(1::nat) \<le> 2 \<and>
   wf_state 2 \<lparr>matrix = [[1, 1], [0, 1]], B = [0, 1 / 2], C = [7, 7::rat]\<rparr> \<and>
   matrix (solveGauss exact_fpu 2 \<lparr>matrix = [[1, 1], [0, 1]], B = [0, 1 / 2], C = [7, 7]\<rparr>)
     = [[1, 1], [0, 1]] \<and>
   B (solveGauss exact_fpu 2 \<lparr>matrix = [[1, 1], [0, 1]], B = [0, 1 / 2], C = [7, 7]\<rparr>)
     = [0, 1 / 2]"
proof -
  have w: "wf_state 2 \<lparr>matrix = [[1, 1], [0, 1]], B = [0, 1 / 2], C = [7, 7::rat]\<rparr>"
    by (simp add: wf_state_def)
  show ?thesis
    using solveGauss_frame [of 2 "\<lparr>matrix = [[1, 1], [0, 1]], B = [0, 1 / 2], C = [7, 7]\<rparr>" exact_fpu] w
    by simp
qed

text \<open>
  Claim C9. The row swap of \<open>getPivot\<close> exchanges the rows \<open>a\<close> and \<open>b\<close> of the matrix
  and the entries \<open>a\<close> and \<open>b\<close> of the right-hand side, and it is an involution: done twice
  on buffers of dimension \<open>nsize\<close>, with \<open>a, b < nsize\<close>, it gives back the very state it
  started from.
\<close>

theorem swap_rows_involution:
  assumes "wf_state nsize s" and "a < nsize" and "b < nsize"
  shows "matrix (swap_rows a b s) = (matrix s)[a := matrix s ! b, b := matrix s ! a] \<and>
         B (swap_rows a b s) = (B s)[a := B s ! b, b := B s ! a] \<and>
         swap_rows a b (swap_rows a b s) = s"
proof -
  have m: "a < length (matrix s)" "b < length (matrix s)"
    and v: "a < length (B s)" "b < length (B s)"
    using assms by (simp_all add: wf_state_def)
  have "matrix (swap_rows a b (swap_rows a b s)) = matrix s"
    using m by (auto simp: swap_rows_def Let_def nth_list_update intro!: nth_equalityI)
  moreover have "B (swap_rows a b (swap_rows a b s)) = B s"
    using v by (auto simp: swap_rows_def Let_def nth_list_update intro!: nth_equalityI)
  moreover have "C (swap_rows a b (swap_rows a b s)) = C s"
    by (simp add: swap_rows_def Let_def)
  moreover have "gstate.more (swap_rows a b (swap_rows a b s)) = gstate.more s"
    by (simp add: swap_rows_def Let_def)
  ultimately have "swap_rows a b (swap_rows a b s) = s" by (rule gstate.equality)
  moreover have "matrix (swap_rows a b s) = (matrix s)[a := matrix s ! b, b := matrix s ! a]"
    using m by (auto simp: swap_rows_def Let_def nth_list_update intro!: nth_equalityI)
  moreover have "B (swap_rows a b s) = (B s)[a := B s ! b, b := B s ! a]"
    using v by (auto simp: swap_rows_def Let_def nth_list_update intro!: nth_equalityI)
  ultimately show ?thesis by simp
qed

theorem swap_rows_involution_witness:
  "wf_state 2 \<lparr>matrix = [[1, 2], [3, 4::int]], B = [5, 6], C = [0, 0]\<rparr> \<and> (0::nat) < 2 \<and> (1::nat) < 2 \<and>
   matrix (swap_rows 0 1 \<lparr>matrix = [[1, 2], [3, 4::int]], B = [5, 6], C = [0, 0]\<rparr>) = [[3, 4], [1, 2]] \<and>
   B (swap_rows 0 1 \<lparr>matrix = [[1, 2], [3, 4::int]], B = [5, 6], C = [0, 0]\<rparr>) = [6, 5] \<and>
   swap_rows 0 1 (swap_rows 0 1 \<lparr>matrix = [[1, 2], [3, 4::int]], B = [5, 6], C = [0, 0]\<rparr>)
     = \<lparr>matrix = [[1, 2], [3, 4]], B = [5, 6], C = [0, 0]\<rparr>"
proof -
  have w: "wf_state 2 \<lparr>matrix = [[1, 2], [3, 4::int]], B = [5, 6], C = [0, 0]\<rparr>"
    by (simp add: wf_state_def)
  show ?thesis
    using swap_rows_involution [OF w, of 0 1] w by simp
qed

section \<open>Assignments to matrix cells\<close>

lemma length_matrix_upd [simp]: "length (matrix_upd m r c v) = length m"
  by (simp add: matrix_upd_def)

lemma length_row_matrix_upd [simp]:
  "length (matrix_upd m r c v ! r') = length (m ! r')"
  by (cases "r < length m") (simp_all add: matrix_upd_def nth_list_update list_update_beyond)

lemma matrix_upd_other_row: "r' \<noteq> r \<Longrightarrow> matrix_upd m r c v ! r' = m ! r'"
  by (simp add: matrix_upd_def)

lemma matrix_upd_nth:
  "r < length m \<Longrightarrow> c < length (m ! r) \<Longrightarrow>
   matrix_upd m r c v ! r' ! c' = (if r' = r \<and> c' = c then v else m ! r' ! c')"
  by (simp add: matrix_upd_def nth_list_update)

lemma wf_state_matrix_upd [simp]:
  "wf_state nsize (s\<lparr>matrix := matrix_upd (matrix s) r c v\<rparr>) = wf_state nsize s"
  by (simp add: wf_state_def list_all_length)

lemma wf_state_B_update [simp]:
  "wf_state nsize (s\<lparr>B := (B s)[i := v]\<rparr>) = wf_state nsize s"
  by (simp add: wf_state_def)

text \<open>What a state of dimension \<open>nsize\<close> holds in its matrix and right-hand side.\<close>

lemma wf_state_eqI:
  assumes "wf_state nsize s" and "wf_state nsize t"
    and "\<And>r c. r < nsize \<Longrightarrow> c < nsize \<Longrightarrow> matrix s ! r ! c = matrix t ! r ! c"
  shows "matrix s = matrix t"
proof (rule nth_equalityI)
  show "length (matrix s) = length (matrix t)" using assms(1,2) by (simp add: wf_stateD)
next
  fix r assume "r < length (matrix s)"
  then have r: "r < nsize" using assms(1) by (simp add: wf_stateD)
  show "matrix s ! r = matrix t ! r"
    by (rule nth_equalityI) (use r assms in \<open>simp_all add: wf_stateD\<close>)
qed

section \<open>The row operations in closed form\<close>

text \<open>A loop that rewrites the cells \<open>lo, \<dots>, n - 1\<close> of row \<open>r\<close>, each from the rows as
  they were before the loop (the new value of cell \<open>k\<close> may read cell \<open>k\<close> of row \<open>r\<close>
  and any cell of the other rows).\<close>

lemma row_loop:
  assumes wf: "wf_state nsize s" and r: "r < nsize" and lo: "lo \<le> nsize"
    and f: "\<And>k m m'. k < nsize \<Longrightarrow> m ! r ! k = m' ! r ! k \<Longrightarrow> (\<And>r'. r' \<noteq> r \<Longrightarrow> m ! r' = m' ! r')
              \<Longrightarrow> f k m = f k m'"
  defines "t \<equiv> for_up lo nsize (\<lambda>k t. t\<lparr>matrix := matrix_upd (matrix t) r k (f k (matrix t))\<rparr>) s"
  shows "wf_state nsize t \<and> B t = B s \<and> C t = C s \<and>
         (\<forall>r' c. r' < nsize \<longrightarrow> c < nsize \<longrightarrow>
            matrix t ! r' ! c =
              (if r' = r \<and> lo \<le> c then f c (matrix s) else matrix s ! r' ! c))"
proof -
  let ?body = "\<lambda>k t. t\<lparr>matrix := matrix_upd (matrix t) r k (f k (matrix t))\<rparr>"
  let ?P = "\<lambda>i t. wf_state nsize t \<and> B t = B s \<and> C t = C s \<and>
         (\<forall>r'. r' \<noteq> r \<longrightarrow> matrix t ! r' = matrix s ! r') \<and>
         (\<forall>c. c < nsize \<longrightarrow>
            matrix t ! r ! c = (if lo \<le> c \<and> c < i then f c (matrix s) else matrix s ! r ! c))"
  have "?P nsize (for_up lo nsize ?body s)"
  proof (rule for_up_rule [where P = ?P])
    show "?P lo s" using wf by auto
    show "lo \<le> nsize" by (rule lo)
  next
    fix i u
    assume i: "lo \<le> i" "i < nsize" and P: "?P i u"
    have fi: "f i (matrix u) = f i (matrix s)"
      using P i by (intro f) auto
    have len: "r < length (matrix u)" "i < length (matrix u ! r)"
      using P r i by (auto simp: wf_stateD)
    have "\<forall>c. c < nsize \<longrightarrow> matrix (?body i u) ! r ! c =
        (if lo \<le> c \<and> c < Suc i then f c (matrix s) else matrix s ! r ! c)"
      using P i fi len by (auto simp: matrix_upd_nth less_Suc_eq)
    moreover have "\<forall>r'. r' \<noteq> r \<longrightarrow> matrix (?body i u) ! r' = matrix s ! r'"
      using P by (simp add: matrix_upd_other_row)
    ultimately show "?P (Suc i) (?body i u)" using P by simp
  qed
  then have P: "?P nsize t" unfolding t_def .
  have "matrix t ! r' ! c = (if r' = r \<and> lo \<le> c then f c (matrix s) else matrix s ! r' ! c)"
    if "r' < nsize" "c < nsize" for r' c
  proof (cases "r' = r")
    case True
    then show ?thesis using P that by simp
  next
    case False
    then show ?thesis using P by simp
  qed
  then show ?thesis using P by blast
qed

lemma normalize_row_result:
  fixes ops :: "'a fpu"
  assumes wf: "wf_state nsize s" and k: "k < nsize"
  defines "pv \<equiv> matrix s ! k ! k" and "p \<equiv> normalize_row ops nsize k s"
  shows "wf_state nsize p \<and> C p = C s \<and>
     B p = (if deq ops pv (d1 ops) then B s else (B s)[k := ddiv ops (B s ! k) pv]) \<and>
     (\<forall>r c. r < nsize \<longrightarrow> c < nsize \<longrightarrow> matrix p ! r ! c =
        (if r = k \<and> \<not> deq ops pv (d1 ops) then
           (if c = k then d1 ops else if k < c then ddiv ops (matrix s ! k ! c) pv
            else matrix s ! k ! c)
         else matrix s ! r ! c))"
proof (cases "deq ops pv (d1 ops)")
  case True
  then have "p = s" by (simp add: p_def pv_def normalize_row_def)
  then show ?thesis using True wf by simp
next
  case False
  define s1 where "s1 = s\<lparr>matrix := matrix_upd (matrix s) k k (d1 ops)\<rparr>"
  define s2 where "s2 = for_up (k + 1) nsize (\<lambda>i t.
      t\<lparr>matrix := matrix_upd (matrix t) k i (ddiv ops (matrix t ! k ! i) pv)\<rparr>) s1"
  have p: "p = s2\<lparr>B := (B s2)[k := ddiv ops (B s2 ! k) pv]\<rparr>"
    using False by (simp add: p_def pv_def normalize_row_def Let_def s1_def s2_def)
  have wf1: "wf_state nsize s1" using wf by (simp add: s1_def)
  have m1: "matrix s1 ! r ! c = (if r = k \<and> c = k then d1 ops else matrix s ! r ! c)" for r c
    using wf k by (simp add: s1_def matrix_upd_nth wf_stateD)
  have s2: "wf_state nsize s2 \<and> B s2 = B s1 \<and> C s2 = C s1 \<and>
         (\<forall>r' c. r' < nsize \<longrightarrow> c < nsize \<longrightarrow>
            matrix s2 ! r' ! c =
              (if r' = k \<and> k + 1 \<le> c then ddiv ops (matrix s1 ! k ! c) pv else matrix s1 ! r' ! c))"
    unfolding s2_def using wf1 k
    by (rule row_loop [where f = "\<lambda>i m. ddiv ops (m ! k ! i) pv"]) (use k in auto)
  have "matrix p ! r ! c =
        (if r = k then
           (if c = k then d1 ops else if k < c then ddiv ops (matrix s ! k ! c) pv
            else matrix s ! k ! c)
         else matrix s ! r ! c)" if "r < nsize" "c < nsize" for r c
    using s2 that by (auto simp: p m1)
  moreover have "wf_state nsize p" using s2 by (auto simp: p wf_state_def)
  moreover have "C p = C s" using s2 by (simp add: p s1_def)
  moreover have "B p = (B s)[k := ddiv ops (B s ! k) pv]" using s2 by (simp add: p s1_def)
  ultimately show ?thesis using False by simp
qed

lemma eliminate_row_result:
  fixes ops :: "'a fpu"
  assumes wf: "wf_state nsize s" and i: "i < nsize" and j: "j < nsize" and ij: "i \<noteq> j"
  defines "q \<equiv> eliminate_row ops nsize i j s"
  shows "wf_state nsize q \<and> C q = C s \<and>
    B q = (B s)[j := dsub ops (B s ! j) (dmul ops (matrix s ! j ! i) (B s ! i))] \<and>
    (\<forall>r c. r < nsize \<longrightarrow> c < nsize \<longrightarrow> matrix q ! r ! c =
        (if r = j then
           (if c = i then d0 ops
            else if i < c then
              dsub ops (matrix s ! j ! c) (dmul ops (matrix s ! j ! i) (matrix s ! i ! c))
            else matrix s ! j ! c)
         else matrix s ! r ! c))"
proof -
  define pv where "pv = matrix s ! j ! i"
  define s1 where "s1 = s\<lparr>matrix := matrix_upd (matrix s) j i (d0 ops)\<rparr>"
  define s2 where "s2 = for_up (i + 1) nsize (\<lambda>k t.
      t\<lparr>matrix := matrix_upd (matrix t) j k
           (dsub ops (matrix t ! j ! k) (dmul ops pv (matrix t ! i ! k)))\<rparr>) s1"
  have q: "q = s2\<lparr>B := (B s2)[j := dsub ops (B s2 ! j) (dmul ops pv (B s2 ! i))]\<rparr>"
    by (simp add: q_def eliminate_row_def Let_def pv_def s1_def s2_def)
  have wf1: "wf_state nsize s1" using wf by (simp add: s1_def)
  have m1: "matrix s1 ! r ! c = (if r = j \<and> c = i then d0 ops else matrix s ! r ! c)" for r c
    using wf i j by (simp add: s1_def matrix_upd_nth wf_stateD)
  have s2: "wf_state nsize s2 \<and> B s2 = B s1 \<and> C s2 = C s1 \<and>
         (\<forall>r' c. r' < nsize \<longrightarrow> c < nsize \<longrightarrow>
            matrix s2 ! r' ! c =
              (if r' = j \<and> i + 1 \<le> c then dsub ops (matrix s1 ! j ! c) (dmul ops pv (matrix s1 ! i ! c))
               else matrix s1 ! r' ! c))"
    unfolding s2_def using wf1 j
    by (rule row_loop [where f = "\<lambda>k m. dsub ops (m ! j ! k) (dmul ops pv (m ! i ! k))"])
      (use i ij in auto)
  have "matrix q ! r ! c =
        (if r = j then
           (if c = i then d0 ops
            else if i < c then
              dsub ops (matrix s ! j ! c) (dmul ops (matrix s ! j ! i) (matrix s ! i ! c))
            else matrix s ! j ! c)
         else matrix s ! r ! c)" if "r < nsize" "c < nsize" for r c
    using s2 that ij by (auto simp: q m1 pv_def)
  moreover have "wf_state nsize q" using s2 by (auto simp: q wf_state_def)
  moreover have "C q = C s" using s2 by (simp add: q s1_def)
  moreover have "B q = (B s)[j := dsub ops (B s ! j) (dmul ops (matrix s ! j ! i) (B s ! i))]"
    using s2 by (simp add: q s1_def pv_def)
  ultimately show ?thesis by simp
qed

lemma eliminate_result:
  fixes ops :: "'a fpu"
  assumes wf: "wf_state nsize s" and i: "i < nsize"
  defines "q \<equiv> eliminate ops nsize i s"
  shows "wf_state nsize q \<and> C q = C s \<and>
    (\<forall>r. r < nsize \<longrightarrow> B q ! r = (if i < r then eliminated_rhs ops i s r else B s ! r)) \<and>
    (\<forall>r c. r < nsize \<longrightarrow> c < nsize \<longrightarrow> matrix q ! r ! c =
        (if i < r then eliminated_entry ops i s r c else matrix s ! r ! c))"
proof -
  let ?P = "\<lambda>j t. wf_state nsize t \<and> C t = C s \<and>
    (\<forall>r. r < nsize \<longrightarrow> B t ! r = (if i < r \<and> r < j then eliminated_rhs ops i s r else B s ! r)) \<and>
    (\<forall>r c. r < nsize \<longrightarrow> c < nsize \<longrightarrow> matrix t ! r ! c =
        (if i < r \<and> r < j then eliminated_entry ops i s r c else matrix s ! r ! c))"
  have "?P nsize (for_up (i + 1) nsize (\<lambda>j t. eliminate_row ops nsize i j t) s)"
  proof (rule for_up_rule [where P = ?P])
    show "?P (i + 1) s" using wf by auto
    show "i + 1 \<le> nsize" using i by simp
  next
    fix j t
    assume j: "i + 1 \<le> j" "j < nsize" and P: "?P j t"
    let ?q = "eliminate_row ops nsize i j t"
    from P have wft: "wf_state nsize t" by simp
    have ij: "i \<noteq> j" using j by simp
    note R = eliminate_row_result [OF wft i j(2) ij, of ops]
    have rowj: "matrix t ! j ! c = matrix s ! j ! c" if "c < nsize" for c
      using P j that by simp
    have rowi: "matrix t ! i ! c = matrix s ! i ! c" if "c < nsize" for c
      using P i that by simp
    have bj: "B t ! j = B s ! j" "B t ! i = B s ! i" using P i j by simp_all
    have "B ?q ! r = (if i < r \<and> r < Suc j then eliminated_rhs ops i s r else B s ! r)"
      if "r < nsize" for r
    proof (cases "r = j")
      case True
      then show ?thesis using R j wft rowj [OF i] bj
        by (simp add: eliminated_rhs_def wf_stateD)
    next
      case False
      then show ?thesis using R P that j by (auto simp: less_Suc_eq)
    qed
    moreover have "matrix ?q ! r ! c =
        (if i < r \<and> r < Suc j then eliminated_entry ops i s r c else matrix s ! r ! c)"
      if "r < nsize" "c < nsize" for r c
    proof (cases "r = j")
      case True
      then show ?thesis using R j that rowj [OF i] rowj [OF that(2)] rowi [OF that(2)]
        by (simp add: eliminated_entry_def)
    next
      case False
      then show ?thesis using R P that j by (auto simp: less_Suc_eq)
    qed
    ultimately show "?P (Suc j) ?q" using R P by simp
  qed
  then show ?thesis unfolding q_def eliminate_def by simp
qed

lemma swap_rows_result:
  assumes wf: "wf_state nsize s" and a: "a < nsize" and b: "b < nsize"
  shows "wf_state nsize (swap_rows a b s)" and "C (swap_rows a b s) = C s"
    and "r < nsize \<Longrightarrow> matrix (swap_rows a b s) ! r =
           (if r = b then matrix s ! a else if r = a then matrix s ! b else matrix s ! r)"
    and "r < nsize \<Longrightarrow> B (swap_rows a b s) ! r =
           (if r = b then B s ! a else if r = a then B s ! b else B s ! r)"
  using assms
  by (auto simp: swap_rows_def Let_def wf_state_def list_all_length nth_list_update)

lemma pivot_scan_range:
  assumes k: "k < nsize"
  shows "k \<le> snd (pivot_scan ops nsize k s) \<and> snd (pivot_scan ops nsize k s) < nsize \<and>
         fst (pivot_scan ops nsize k s) = col_abs ops s k (snd (pivot_scan ops nsize k s))"
proof -
  let ?body = "\<lambda>i (big, irow).
          let tmp = ABS ops (matrix s ! i ! k)
          in if dgt ops tmp big then (tmp, i) else (big, irow)"
  let ?P = "\<lambda>i x. k \<le> snd x \<and> snd x < i \<and> fst x = col_abs ops s k (snd x)"
  have "?P nsize (for_up (k + 1) nsize ?body (ABS ops (matrix s ! k ! k), k))"
  proof (rule for_up_rule [where P = ?P])
    show "?P (k + 1) (ABS ops (matrix s ! k ! k), k)" by (simp add: col_abs_def)
    show "k + 1 \<le> nsize" using k by simp
  next
    fix i x
    assume "k + 1 \<le> i" "i < nsize" "?P i x"
    then show "?P (Suc i) (?body i x)"
      by (cases x) (simp add: Let_def col_abs_def)
  qed
  then show ?thesis by (simp add: pivot_scan_def)
qed

lemma getPivot_singular_iff:
  "getPivot ops nsize k s = Inl e \<longleftrightarrow>
     e = Singular \<and> deq ops (fst (pivot_scan ops nsize k s)) (d0 ops)"
  by (auto simp: getPivot_def split: prod.splits)

lemma getPivot_result:
  fixes ops :: "'a fpu"
  assumes wf: "wf_state nsize s" and k: "k < nsize" and g: "getPivot ops nsize k s = Inr p"
  defines "irow \<equiv> snd (pivot_scan ops nsize k s)"
  defines "pv \<equiv> matrix s ! irow ! k"
  shows "wf_state nsize p" and "C p = C s"
    and "r < nsize \<Longrightarrow> c < nsize \<Longrightarrow> matrix p ! r ! c =
          (if r = k then
             (if deq ops pv (d1 ops) then matrix s ! irow ! c
              else if c = k then d1 ops
              else if k < c then ddiv ops (matrix s ! irow ! c) pv
              else matrix s ! irow ! c)
           else if r = irow then matrix s ! k ! c
           else matrix s ! r ! c)"
    and "r < nsize \<Longrightarrow> B p ! r =
          (if r = k then (if deq ops pv (d1 ops) then B s ! irow else ddiv ops (B s ! irow) pv)
           else if r = irow then B s ! k
           else B s ! r)"
proof -
  have ir: "k \<le> irow" "irow < nsize"
    using pivot_scan_range [OF k, of ops s] by (simp_all add: irow_def)
  define s1 where "s1 = (if irow \<noteq> k then swap_rows irow k s else s)"
  have p: "p = normalize_row ops nsize k s1"
    using g by (auto simp: getPivot_def s1_def irow_def split: prod.splits if_splits)
  have wf1: "wf_state nsize s1" and C1: "C s1 = C s"
    using swap_rows_result(1,2) [OF wf ir(2) k] wf by (simp_all add: s1_def)
  have m1: "matrix s1 ! r = (if r = k then matrix s ! irow else if r = irow then matrix s ! k
       else matrix s ! r)" if "r < nsize" for r
    using swap_rows_result(3) [OF wf ir(2) k that] by (auto simp: s1_def)
  have b1: "B s1 ! r = (if r = k then B s ! irow else if r = irow then B s ! k else B s ! r)"
    if "r < nsize" for r
    using swap_rows_result(4) [OF wf ir(2) k that] by (auto simp: s1_def)
  have pv1: "matrix s1 ! k ! k = pv" using m1 [OF k] by (simp add: pv_def)
  note N = normalize_row_result [OF wf1 k, of ops, folded p, unfolded pv1]
  show "wf_state nsize p" and "C p = C s" using N C1 by simp_all
  show "matrix p ! r ! c =
          (if r = k then
             (if deq ops pv (d1 ops) then matrix s ! irow ! c
              else if c = k then d1 ops
              else if k < c then ddiv ops (matrix s ! irow ! c) pv
              else matrix s ! irow ! c)
           else if r = irow then matrix s ! k ! c
           else matrix s ! r ! c)" if "r < nsize" "c < nsize"
    using N that m1 [OF that(1)] m1 [OF k] by simp
  show "B p ! r =
          (if r = k then (if deq ops pv (d1 ops) then B s ! irow else ddiv ops (B s ! irow) pv)
           else if r = irow then B s ! k
           else B s ! r)" if "r < nsize"
    using N that b1 [OF that] b1 [OF k] wf1 k by (auto simp: nth_list_update wf_stateD)
qed

section \<open>The passes of the elimination\<close>

lemma computeGauss_gauss_steps: "computeGauss ops nsize s = gauss_steps ops nsize nsize s"
  by (simp add: computeGauss_def gauss_steps_def)

lemma gauss_steps_0: "gauss_steps ops nsize 0 s = Inr s"
  by (simp add: gauss_steps_def for_up_err_done)

lemma gauss_steps_Suc:
  "gauss_steps ops nsize (Suc k) s =
     (case gauss_steps ops nsize k s of Inl e \<Rightarrow> Inl e | Inr t \<Rightarrow> gauss_step ops nsize k t)"
  by (simp add: gauss_steps_def for_up_err_last)

lemma for_up_err_fails:
  assumes "k \<le> n" and "lo \<le> k" and "for_up_err lo k body s = Inl e"
  shows "for_up_err lo n body s = Inl e"
  using assms(1)
proof (induction n rule: dec_induct)
  case base
  show ?case by (rule assms(3))
next
  case (step m)
  then show ?case using assms(2) by (simp add: for_up_err_last)
qed

lemma gauss_steps_fails:
  "k \<le> nsize \<Longrightarrow> gauss_steps ops nsize k s = Inl e \<Longrightarrow> computeGauss ops nsize s = Inl e"
  unfolding computeGauss_def gauss_steps_def by (rule for_up_err_fails) simp_all

lemma gauss_step_Inr:
  "gauss_step ops nsize k s = Inr q \<longleftrightarrow>
     (\<exists>p. getPivot ops nsize k s = Inr p \<and> q = eliminate ops nsize k p)"
  by (auto simp: gauss_step_def split: sum.splits)

lemma gauss_step_wf:
  assumes "wf_state nsize s" and "k < nsize" and "gauss_step ops nsize k s = Inr q"
  shows "wf_state nsize q"
proof -
  from assms(3) obtain p where p: "getPivot ops nsize k s = Inr p" and q: "q = eliminate ops nsize k p"
    by (auto simp: gauss_step_Inr)
  have "wf_state nsize p" by (rule getPivot_result(1) [OF assms(1,2) p])
  then show ?thesis using eliminate_result [OF _ assms(2), of p ops] by (simp add: q)
qed

lemma gauss_steps_wf:
  assumes "wf_state nsize s" and "k \<le> nsize" and "gauss_steps ops nsize k s = Inr t"
  shows "wf_state nsize t"
  using assms(3) unfolding gauss_steps_def
proof (rule for_up_err_rule [where P = "\<lambda>_ t. wf_state nsize t"])
  show "wf_state nsize s" by (rule assms(1))
  show "0 \<le> k" by simp
next
  fix i t t'
  assume "i < k" "wf_state nsize t" "gauss_step ops nsize i t = Inr t'"
  then show "wf_state nsize t'" using gauss_step_wf [of nsize t i ops t'] assms(2) by simp
qed

text \<open>
  Claim C6. In a run of \<open>computeGauss\<close> on buffers of dimension \<open>nsize\<close>, let \<open>s\<close> be the
  state before pass \<open>k\<close> of the outer loop (\<open>k < nsize\<close>) and \<open>p\<close> the state \<open>getPivot\<close>
  returns on it. Then pass \<open>k\<close> ends in a state \<open>q\<close> in which every row \<open>j\<close> with
  \<open>k < j < nsize\<close> has, with \<open>f\<close> the entry \<open>p[j][k]\<close>: the constant \<open>0.0\<close> in column \<open>k\<close>,
  \<open>p[j][c] - f * p[k][c]\<close> in every column \<open>c > k\<close>, and \<open>B[j] - f * B[k]\<close> as right-hand side;
  the columns before \<open>k\<close>, the rows up to \<open>k\<close> and the vector \<open>C\<close> are as in \<open>p\<close>.
\<close>

theorem gauss_step_eliminates:
  assumes "wf_state nsize s0" and "k < nsize"
    and "gauss_steps ops nsize k s0 = Inr s"
    and "getPivot ops nsize k s = Inr p"
  shows "\<exists>q. gauss_steps ops nsize (Suc k) s0 = Inr q \<and> wf_state nsize q \<and> C q = C p \<and>
     (\<forall>j c. j < nsize \<longrightarrow> c < nsize \<longrightarrow> matrix q ! j ! c =
         (if k < j then
            (if c = k then d0 ops
             else if k < c then
               dsub ops (matrix p ! j ! c) (dmul ops (matrix p ! j ! k) (matrix p ! k ! c))
             else matrix p ! j ! c)
          else matrix p ! j ! c)) \<and>
     (\<forall>j. j < nsize \<longrightarrow> B q ! j =
         (if k < j then dsub ops (B p ! j) (dmul ops (matrix p ! j ! k) (B p ! k))
          else B p ! j))"
proof -
  have wf: "wf_state nsize s"
    using gauss_steps_wf [OF assms(1) _ assms(3)] assms(2) by simp
  have wfp: "wf_state nsize p" by (rule getPivot_result(1) [OF wf assms(2,4)])
  have "gauss_steps ops nsize (Suc k) s0 = Inr (eliminate ops nsize k p)"
    using assms(3,4) by (simp add: gauss_steps_Suc gauss_step_def)
  then show ?thesis
    using eliminate_result [OF wfp assms(2), of ops]
    by (simp add: eliminated_entry_def eliminated_rhs_def)
qed

theorem gauss_step_eliminates_witness:
  "wf_state 2 \<lparr>matrix = [[2, 2], [2, 4]], B = [0, 1], C = [7, 7::rat]\<rparr> \<and> (0::nat) < 2 \<and>
   gauss_steps exact_fpu 2 0 \<lparr>matrix = [[2, 2], [2, 4]], B = [0, 1], C = [7, 7]\<rparr>
     = Inr \<lparr>matrix = [[2, 2], [2, 4]], B = [0, 1], C = [7, 7]\<rparr> \<and>
   getPivot exact_fpu 2 0 \<lparr>matrix = [[2, 2], [2, 4]], B = [0, 1], C = [7, 7]\<rparr>
     = Inr \<lparr>matrix = [[1, 1], [2, 4]], B = [0, 1], C = [7, 7]\<rparr> \<and>
   (\<exists>q. gauss_steps exact_fpu 2 (Suc 0) \<lparr>matrix = [[2, 2], [2, 4]], B = [0, 1], C = [7, 7]\<rparr> = Inr q \<and>
        matrix q ! 1 ! 0 = 0 \<and> matrix q ! 1 ! 1 = 2 \<and> B q ! 1 = 1 \<and> matrix q ! 0 ! 1 = 1)"
proof -
  let ?s = "\<lparr>matrix = [[2, 2], [2, 4]], B = [0, 1], C = [7, 7::rat]\<rparr>"
  let ?p = "\<lparr>matrix = [[1, 1], [2, 4]], B = [0, 1], C = [7, 7::rat]\<rparr>"
  have w: "wf_state 2 ?s" by (simp add: wf_state_def)
  have k: "(0::nat) < 2" by simp
  have r: "gauss_steps exact_fpu 2 0 ?s = Inr ?s" by (rule gauss_steps_0)
  have g: "getPivot exact_fpu 2 0 ?s = Inr ?p" by code_simp
  from gauss_step_eliminates [OF w k r g] obtain q where
    q: "gauss_steps exact_fpu 2 (Suc 0) ?s = Inr q"
    and m: "\<forall>j c. j < 2 \<longrightarrow> c < 2 \<longrightarrow> matrix q ! j ! c =
         (if 0 < j then
            (if c = 0 then d0 exact_fpu
             else if 0 < c then
               dsub exact_fpu (matrix ?p ! j ! c) (dmul exact_fpu (matrix ?p ! j ! 0) (matrix ?p ! 0 ! c))
             else matrix ?p ! j ! c)
          else matrix ?p ! j ! c)"
    and b: "\<forall>j. j < 2 \<longrightarrow> B q ! j =
         (if 0 < j then dsub exact_fpu (B ?p ! j) (dmul exact_fpu (matrix ?p ! j ! 0) (B ?p ! 0))
          else B ?p ! j)"
    by blast
  have "matrix q ! 1 ! 0 = 0" using m [rule_format, of 1 0] by (simp add: exact_fpu_def)
  moreover have "matrix q ! 1 ! 1 = 2" using m [rule_format, of 1 1] by (simp add: exact_fpu_def)
  moreover have "matrix q ! 0 ! 1 = 1" using m [rule_format, of 0 1] by simp
  moreover have "B q ! 1 = 1" using b [rule_format, of 1] by (simp add: exact_fpu_def)
  ultimately show ?thesis using w r g q by auto
qed

text \<open>
  Claim C2. When \<open>computeGauss\<close> returns (no singular pivot was met) on buffers of
  dimension \<open>nsize\<close>, every entry below the diagonal is the constant \<open>0.0\<close> and every
  diagonal entry compares equal (\<^verbatim>\<open>==\<close>) to \<open>1.0\<close>. Of the arithmetic this uses only that
  \<^verbatim>\<open>1.0 == 1.0\<close> holds.
\<close>

theorem computeGauss_upper_triangular:
  assumes wf: "wf_state nsize s" and run: "computeGauss ops nsize s = Inr s'"
    and one: "deq ops (d1 ops) (d1 ops)"
  shows "\<forall>i<nsize. (\<forall>j<i. matrix s' ! i ! j = d0 ops) \<and> deq ops (matrix s' ! i ! i) (d1 ops)"
proof -
  let ?P = "\<lambda>k t. wf_state nsize t \<and>
      (\<forall>i j. i < nsize \<longrightarrow> j < i \<longrightarrow> j < k \<longrightarrow> matrix t ! i ! j = d0 ops) \<and>
      (\<forall>i. i < k \<longrightarrow> deq ops (matrix t ! i ! i) (d1 ops))"
  have "?P nsize s'"
    using run unfolding computeGauss_def
  proof (rule for_up_err_rule [where P = ?P])
    show "?P 0 s" using wf by simp
    show "0 \<le> nsize" by simp
  next
    fix k t t'
    assume k: "k < nsize" and P: "?P k t" and step: "gauss_step ops nsize k t = Inr t'"
    from step obtain p where p: "getPivot ops nsize k t = Inr p"
      and t': "t' = eliminate ops nsize k p" by (auto simp: gauss_step_Inr)
    from P have wft: "wf_state nsize t" by simp
    define irow where "irow = snd (pivot_scan ops nsize k t)"
    have ir: "k \<le> irow" "irow < nsize"
      using pivot_scan_range [OF k, of ops t] by (simp_all add: irow_def)
    note G = getPivot_result [OF wft k p, folded irow_def]
    have wfp: "wf_state nsize p" by (rule G(1))
    note E = eliminate_result [OF wfp k, of ops, folded t']
    have zero_t: "matrix t ! i ! j = d0 ops" if "i < nsize" "j < i" "j < k" for i j
      using P that by simp
    have zero_p: "matrix p ! i ! j = d0 ops" if "i < nsize" "j < i" "j < k" for i j
    proof -
      have j: "j < nsize" using that by simp
      have "matrix t ! irow ! j = d0 ops" using zero_t [of irow j] ir that by simp
      moreover have "matrix t ! k ! j = d0 ops" using zero_t [of k j] k that by simp
      moreover have "matrix t ! i ! j = d0 ops" using zero_t [OF that] .
      ultimately show ?thesis using G(3) [OF that(1) j] that by simp
    qed
    have diag_p: "deq ops (matrix p ! i ! i) (d1 ops)" if "i < Suc k" for i
    proof (cases "i = k")
      case True
      then show ?thesis using G(3) [OF k k] one by simp
    next
      case False
      with that have "i < k" by simp
      then show ?thesis using G(3) [of i i] P k ir by simp
    qed
    have "matrix t' ! i ! j = d0 ops" if "i < nsize" "j < i" "j < Suc k" for i j
    proof -
      have j: "j < nsize" using that by simp
      show ?thesis
      proof (cases "j = k")
        case True
        then show ?thesis using E that j by (simp add: eliminated_entry_def)
      next
        case False
        with that have "j < k" by simp
        then show ?thesis
          using E that j zero_p [OF that(1,2)] by (simp add: eliminated_entry_def)
      qed
    qed
    moreover have "deq ops (matrix t' ! i ! i) (d1 ops)" if "i < Suc k" for i
      using E diag_p [OF that] that k by simp
    ultimately show "?P (Suc k) t'" using E by simp
  qed
  then show ?thesis by simp
qed

theorem computeGauss_upper_triangular_witness:
  "wf_state 2 \<lparr>matrix = [[2, 2], [2, 4]], B = [0, 1], C = [7, 7::rat]\<rparr> \<and>
   computeGauss exact_fpu 2 \<lparr>matrix = [[2, 2], [2, 4]], B = [0, 1], C = [7, 7]\<rparr>
     = Inr \<lparr>matrix = [[1, 1], [0, 1]], B = [0, 1 / 2], C = [7, 7]\<rparr> \<and>
   deq exact_fpu (d1 exact_fpu) (d1 exact_fpu) \<and>
   matrix \<lparr>matrix = [[1, 1], [0, 1]], B = [0, 1 / 2], C = [7, 7::rat]\<rparr> ! 1 ! 0 = d0 exact_fpu \<and>
   deq exact_fpu (matrix \<lparr>matrix = [[1, 1], [0, 1]], B = [0, 1 / 2], C = [7, 7::rat]\<rparr> ! 0 ! 0) (d1 exact_fpu) \<and>
   deq exact_fpu (matrix \<lparr>matrix = [[1, 1], [0, 1]], B = [0, 1 / 2], C = [7, 7::rat]\<rparr> ! 1 ! 1) (d1 exact_fpu)"
proof -
  let ?s = "\<lparr>matrix = [[2, 2], [2, 4]], B = [0, 1], C = [7, 7::rat]\<rparr>"
  let ?s' = "\<lparr>matrix = [[1, 1], [0, 1]], B = [0, 1 / 2], C = [7, 7::rat]\<rparr>"
  have w: "wf_state 2 ?s" by (simp add: wf_state_def)
  have r: "computeGauss exact_fpu 2 ?s = Inr ?s'" by code_simp
  have o: "deq exact_fpu (d1 exact_fpu) (d1 exact_fpu)" by (simp add: exact_fpu_def)
  note T = computeGauss_upper_triangular [OF w r o, rule_format]
  have "(1::nat) < 2" "(0::nat) < 1" "(0::nat) < 2" by simp_all
  then show ?thesis using w r o T [of 1] T [of 0] by auto
qed

section \<open>Back-substitution\<close>

lemma back_substitution_entry_cong:
  assumes "\<And>col. row < col \<Longrightarrow> col < n \<Longrightarrow> x ! col = y ! col"
  shows "back_substitution_entry ops n A b x row = back_substitution_entry ops n A b y row"
  unfolding back_substitution_entry_def
  by (rule fold_cong) (use assms in auto)

lemma rev_upt_from: "i < n \<Longrightarrow> rev [i ..< n] = rev [Suc i ..< n] @ [i]"
  by (simp add: upt_conv_Cons)

lemma solveGauss_row:
  fixes ops :: "'a fpu"
  assumes r: "r < n" and len: "length (C t) = n"
  defines "F \<equiv> \<lambda>col acc. dsub ops acc (dmul ops (matrix t ! r ! col) (C t ! col))"
  defines "u \<equiv> for_down_gt (int n - 1) (int r) (\<lambda>col u.
       u\<lparr>C := (C u)[nat (int r) :=
            dsub ops (C u ! nat (int r))
              (dmul ops (matrix u ! nat (int r) ! nat col) (C u ! nat col))]\<rparr>) t"
  shows "matrix u = matrix t \<and> B u = B t \<and> length (C u) = n \<and>
         (\<forall>i. i \<noteq> r \<longrightarrow> C u ! i = C t ! i) \<and>
         C u ! r = fold F (rev [r + 1 ..< n]) (C t ! r)"
proof -
  let ?body = "\<lambda>col u.
       u\<lparr>C := (C u)[nat (int r) :=
            dsub ops (C u ! nat (int r))
              (dmul ops (matrix u ! nat (int r) ! nat col) (C u ! nat col))]\<rparr>"
  let ?P = "\<lambda>j u. matrix u = matrix t \<and> B u = B t \<and> length (C u) = n \<and>
         (\<forall>i. i \<noteq> r \<longrightarrow> C u ! i = C t ! i) \<and>
         C u ! r = fold F (rev [Suc (nat j) ..< n]) (C t ! r)"
  have "?P (int r) (for_down_gt (int n - 1) (int r) ?body t)"
  proof (rule for_down_gt_rule [where P = ?P])
    have "Suc (nat (int n - 1)) = n" using r by simp
    then show "?P (int n - 1) t" using len by simp
    show "int r \<le> int n - 1" using r by simp
  next
    fix j v
    assume j: "int r < j" "j \<le> int n - 1" and P: "?P j v"
    have nj: "nat j \<noteq> r" "nat j < n" "Suc (nat (j - 1)) = nat j"
      using j by simp_all
    have "C (?body j v) ! r = F (nat j) (fold F (rev [Suc (nat j) ..< n]) (C t ! r))"
      using P r nj(1,2) by (simp add: F_def)
    also have "\<dots> = fold F (rev [nat j ..< n]) (C t ! r)"
      by (simp add: rev_upt_from [OF nj(2)])
    finally have "C (?body j v) ! r = fold F (rev [Suc (nat (j - 1)) ..< n]) (C t ! r)"
      by (simp only: nj(3))
    then show "?P (j - 1) (?body j v)" using P by simp
  qed
  then show ?thesis by (simp add: u_def)
qed

lemma solveGauss_result:
  fixes ops :: "'a fpu"
  assumes n: "1 \<le> n" and wf: "wf_state n s"
  defines "x \<equiv> C (solveGauss ops n s)"
  shows "length x = n \<and>
         (\<forall>row<n. x ! row = back_substitution_entry ops n (matrix s) (B s) x row)"
proof -
  define s0 where "s0 = s\<lparr>C := (C s)[n - 1 := B s ! (n - 1)]\<rparr>"
  let ?inner = "\<lambda>row. (\<lambda>col u.
                u\<lparr>C := (C u)[nat row :=
                     dsub ops (C u ! nat row)
                       (dmul ops (matrix u ! nat row ! nat col) (C u ! nat col))]\<rparr>)"
  let ?body = "\<lambda>row t.
           let t1 = t\<lparr>C := (C t)[nat row := B t ! nat row]\<rparr>
           in for_down_gt (int n - 1) row (?inner row) t1"
  let ?Q = "\<lambda>j t. matrix t = matrix s \<and> B t = B s \<and> length (C t) = n \<and>
      (\<forall>r. j < int r \<and> r < n \<longrightarrow>
         C t ! r = back_substitution_entry ops n (matrix s) (B s) (C t) r)"
  have len: "length (C s) = n" using wf by (simp add: wf_stateD)
  have "?Q (0 - 1) (for_down_ge (int n - 2) 0 ?body s0)"
  proof (rule for_down_ge_rule [where P = ?Q])
    have "C s0 ! r = back_substitution_entry ops n (matrix s) (B s) (C s0) r"
      if "int n - 2 < int r" "r < n" for r
    proof -
      have "r = n - 1" using that by linarith
      then show ?thesis using len n by (simp add: s0_def back_substitution_entry_def)
    qed
    then show "?Q (int n - 2) s0" using len by (simp add: s0_def)
    show "0 - 1 \<le> int n - 2" using n by simp
  next
    fix j t
    assume j: "0 \<le> j" "j \<le> int n - 2" and Q: "?Q j t"
    define r where "r = nat j"
    have r: "r < n" "int r = j" using j by (simp_all add: r_def)
    define t1 where "t1 = t\<lparr>C := (C t)[r := B t ! r]\<rparr>"
    define u where "u = for_down_gt (int n - 1) (int r) (?inner (int r)) t1"
    have body: "?body j t = u" by (simp add: u_def t1_def r(2) [symmetric] Let_def)
    have len1: "length (C t1) = n" using Q by (simp add: t1_def)
    note R = solveGauss_row [OF r(1) len1, of ops, folded u_def]
    have c1: "C t1 ! r = B s ! r" "\<And>i. i \<noteq> r \<Longrightarrow> C t1 ! i = C t ! i"
      using Q r by (simp_all add: t1_def)
    have m1: "matrix t1 = matrix s" "B t1 = B s" using Q by (simp_all add: t1_def)
    have cu: "C u ! i = C t ! i" if "i \<noteq> r" for i using R c1(2) that by simp
    have "C u ! r = back_substitution_entry ops n (matrix s) (B s) (C t1) r"
      using R by (simp add: back_substitution_entry_def m1 c1(1))
    also have "\<dots> = back_substitution_entry ops n (matrix s) (B s) (C u) r"
      by (rule back_substitution_entry_cong) (use R in simp)
    finally have row_r: "C u ! r = back_substitution_entry ops n (matrix s) (B s) (C u) r" .
    have "C u ! r' = back_substitution_entry ops n (matrix s) (B s) (C u) r'"
      if "j - 1 < int r'" "r' < n" for r'
    proof (cases "r' = r")
      case True
      then show ?thesis using row_r by simp
    next
      case False
      then have gt: "j < int r'" using that r by linarith
      have "C u ! r' = C t ! r'" using cu False by simp
      also have "\<dots> = back_substitution_entry ops n (matrix s) (B s) (C t) r'"
        using Q gt that by simp
      also have "\<dots> = back_substitution_entry ops n (matrix s) (B s) (C u) r'"
        by (rule back_substitution_entry_cong) (use cu gt r in auto)
      finally show ?thesis .
    qed
    then show "?Q (j - 1) (?body j t)" using R m1 by (simp add: body)
  qed
  then show ?thesis by (simp add: x_def solveGauss_def s0_def Let_def)
qed

lemma fold_sub_sum:
  fixes g :: "nat \<Rightarrow> rat"
  shows "lo \<le> n \<Longrightarrow> fold (\<lambda>col acc. acc - g col) (rev [lo ..< n]) a = a - (\<Sum>col = lo ..< n. g col)"
proof (induction n arbitrary: a rule: dec_induct)
  case base
  then show ?case by simp
next
  case (step m)
  then show ?case by (simp add: algebra_simps)
qed

lemma back_substitution_entry_exact:
  "back_substitution_entry exact_fpu n A b x row =
     b ! row - (\<Sum>col = row + 1 ..< n. A ! row ! col * x ! col)"
proof (cases "row + 1 \<le> n")
  case True
  then show ?thesis
    by (simp add: back_substitution_entry_def exact_fpu_def fold_sub_sum)
next
  case False
  then show ?thesis by (simp add: back_substitution_entry_def)
qed

text \<open>
  Claim C7, as stated, fails in its last part: under the rounding of doubles the value
  the loops compute is not \<open>b[row] - (\<Sum>col > row. A[row][col] * x[col])\<close>. In the
  arithmetic \<open>round53_fpu\<close>, on the unit upper-triangular system below, the loops give
  \<open>x = [0, 2^53, -2^53]\<close>: for row 0 they compute \<open>1 - 1 * (-2^53)\<close>, which rounds to
  \<open>2^53\<close>, and then \<open>2^53 - 1 * 2^53 = 0\<close>. The sum \<open>1 * 2^53 + 1 * (-2^53)\<close> is 0, rounded
  or not, so \<open>b[0]\<close> minus the sum is 1.
\<close>

theorem solveGauss_sum_counterexample:
  "C (solveGauss round53_fpu 3
        \<lparr>matrix = [[1, 1, 1], [0, 1, 0], [0, 0, 1]],
         B = [1, 9007199254740992, - 9007199254740992], C = [0, 0, 0]\<rparr>)
     = [0, 9007199254740992, - 9007199254740992] \<and>
   dsub round53_fpu ([1, 9007199254740992, - 9007199254740992] ! 0)
     (round53_add
        (dmul round53_fpu ([[1, 1, 1], [0, 1, 0], [0, 0, 1]] ! 0 ! 1)
           ([0, 9007199254740992, - 9007199254740992] ! 1))
        (dmul round53_fpu ([[1, 1, 1], [0, 1, 0], [0, 0, 1]] ! 0 ! 2)
           ([0, 9007199254740992, - 9007199254740992] ! 2))) = 1 \<and>
   [1, 9007199254740992, - 9007199254740992] ! 0 -
     ([[1, 1, 1], [0, 1, 0], [0, 0, 1]] ! 0 ! 1 * [0, 9007199254740992, - 9007199254740992] ! 1 +
      [[1, 1, 1], [0, 1, 0], [0, 0, 1]] ! 0 ! 2 * [0, 9007199254740992, - 9007199254740992] ! 2)
     = (1::rat)"
  by code_simp

text \<open>
  Claim C7, amended. On buffers of dimension \<open>n \<ge> 1\<close>, \<open>solveGauss\<close> leaves in \<open>C\<close> a vector
  \<open>x\<close> with \<open>x[n-1] = B[n-1]\<close> and, for every row, \<open>x[row]\<close> the value obtained from \<open>B[row]\<close>
  by subtracting \<open>A[row][col] * x[col]\<close> for \<open>col = n-1\<close> down to \<open>row+1\<close>, one operation of
  the arithmetic after the other in this order (\<open>back_substitution_entry\<close>). In exact
  arithmetic this is \<open>B[row] - (\<Sum>col = row+1..<n. A[row][col] * x[col])\<close>.
\<close>

theorem solveGauss_back_substitution:
  fixes ops :: "'a fpu" and e :: "rat gstate"
  assumes "1 \<le> n" and "wf_state n s" and "wf_state n e"
  shows "C (solveGauss ops n s) ! (n - 1) = B s ! (n - 1) \<and>
         (\<forall>row<n. C (solveGauss ops n s) ! row =
            back_substitution_entry ops n (matrix s) (B s) (C (solveGauss ops n s)) row) \<and>
         (\<forall>row<n. C (solveGauss exact_fpu n e) ! row =
            B e ! row - (\<Sum>col = row + 1 ..< n. matrix e ! row ! col * C (solveGauss exact_fpu n e) ! col))"
proof -
  note S = solveGauss_result [OF assms(1,2), of ops]
  note E = solveGauss_result [OF assms(1,3), of exact_fpu]
  have "C (solveGauss ops n s) ! (n - 1) =
      back_substitution_entry ops n (matrix s) (B s) (C (solveGauss ops n s)) (n - 1)"
    using S assms(1) by simp
  also have "\<dots> = B s ! (n - 1)"
    using assms(1) by (simp add: back_substitution_entry_def)
  finally have "C (solveGauss ops n s) ! (n - 1) = B s ! (n - 1)" .
  then show ?thesis using S E by (simp add: back_substitution_entry_exact)
qed

theorem solveGauss_back_substitution_witness:
  "(1::nat) \<le> 2 \<and>
   wf_state 2 \<lparr>matrix = [[1, 1], [0, 1]], B = [0, 1 / 2], C = [7, 7::rat]\<rparr> \<and>
   C (solveGauss exact_fpu 2 \<lparr>matrix = [[1, 1], [0, 1]], B = [0, 1 / 2], C = [7, 7]\<rparr>) ! 1 = 1 / 2 \<and>
   C (solveGauss exact_fpu 2 \<lparr>matrix = [[1, 1], [0, 1]], B = [0, 1 / 2], C = [7, 7]\<rparr>) ! 0 = - (1 / 2)"
proof -
  let ?s = "\<lparr>matrix = [[1, 1], [0, 1]], B = [0, 1 / 2], C = [7, 7::rat]\<rparr>"
  have n: "(1::nat) \<le> 2" by simp
  have w: "wf_state 2 ?s" by (simp add: wf_state_def)
  note T = solveGauss_back_substitution [OF n w w, of exact_fpu]
  have x1: "C (solveGauss exact_fpu 2 ?s) ! 1 = 1 / 2" using T [THEN conjunct1] by simp
  have "C (solveGauss exact_fpu 2 ?s) ! 0 =
      B ?s ! 0 - (\<Sum>col = 0 + 1 ..< 2. matrix ?s ! 0 ! col * C (solveGauss exact_fpu 2 ?s) ! col)"
    using T [THEN conjunct2, THEN conjunct2, rule_format, of 0] by simp
  also have "\<dots> = - (1 / 2)" using x1 by (simp add: sum.atLeast_Suc_lessThan)
  finally show ?thesis using n w x1 by simp
qed

section \<open>The pivot\<close>

lemma pivot_scan_max:
  fixes ops :: "'a fpu"
  assumes k: "k < nsize"
    and ord: "gt_strict_weak ops (map (col_abs ops s k) [k ..< nsize])"
  defines "irow \<equiv> snd (pivot_scan ops nsize k s)"
  shows "(\<forall>r. k \<le> r \<and> r < nsize \<longrightarrow> \<not> dgt ops (col_abs ops s k r) (col_abs ops s k irow)) \<and>
         (\<forall>r. k \<le> r \<and> r < irow \<longrightarrow> dgt ops (col_abs ops s k irow) (col_abs ops s k r))"
proof -
  let ?a = "col_abs ops s k"
  let ?V = "set (map ?a [k ..< nsize])"
  have mem: "?a x \<in> ?V" if "k \<le> x" "x < nsize" for x
    using that by simp
  have ord1: "\<And>a b. a \<in> ?V \<Longrightarrow> b \<in> ?V \<Longrightarrow> dgt ops a b \<Longrightarrow> \<not> dgt ops b a"
    and ord2: "\<And>a b c. a \<in> ?V \<Longrightarrow> b \<in> ?V \<Longrightarrow> c \<in> ?V \<Longrightarrow> dgt ops c b \<Longrightarrow> \<not> dgt ops a b
         \<Longrightarrow> dgt ops c a"
    using ord unfolding gt_strict_weak_def by blast+
  have asym: "\<not> dgt ops (?a y) (?a x)" if "dgt ops (?a x) (?a y)" "k \<le> x" "x < nsize" "k \<le> y" "y < nsize" for x y
    using ord1 [OF mem [OF that(2,3)] mem [OF that(4,5)] that(1)] .
  have irrefl: "\<not> dgt ops (?a x) (?a x)" if "k \<le> x" "x < nsize" for x
    using asym [of x x] that by blast
  have ntrans: "dgt ops (?a z) (?a x)"
    if "dgt ops (?a z) (?a y)" "\<not> dgt ops (?a x) (?a y)"
      "k \<le> x" "x < nsize" "k \<le> y" "y < nsize" "k \<le> z" "z < nsize" for x y z
    using ord2 [OF mem [OF that(3,4)] mem [OF that(5,6)] mem [OF that(7,8)] that(1,2)] .
  let ?body = "\<lambda>i (big, irow).
          let tmp = ABS ops (matrix s ! i ! k)
          in if dgt ops tmp big then (tmp, i) else (big, irow)"
  let ?P = "\<lambda>i x. k \<le> snd x \<and> snd x < i \<and> fst x = ?a (snd x) \<and>
      (\<forall>r. k \<le> r \<and> r < i \<longrightarrow> \<not> dgt ops (?a r) (?a (snd x))) \<and>
      (\<forall>r. k \<le> r \<and> r < snd x \<longrightarrow> dgt ops (?a (snd x)) (?a r))"
  have "?P nsize (for_up (k + 1) nsize ?body (ABS ops (matrix s ! k ! k), k))"
  proof (rule for_up_rule [where P = ?P])
    have "\<not> dgt ops (?a r) (?a k)" if "k \<le> r \<and> r < k + 1" for r
    proof -
      from that have "r = k" by simp
      then show ?thesis using irrefl [of k] k by simp
    qed
    then show "?P (k + 1) (ABS ops (matrix s ! k ! k), k)" by (auto simp: col_abs_def)
    show "k + 1 \<le> nsize" using k by simp
  next
    fix i x
    assume i: "k + 1 \<le> i" "i < nsize" and P: "?P i x"
    obtain big j where x: "x = (big, j)" by (cases x)
    from P x have j: "k \<le> j" "j < i" and big: "big = ?a j"
      and mx: "\<And>r. k \<le> r \<Longrightarrow> r < i \<Longrightarrow> \<not> dgt ops (?a r) (?a j)"
      and fs: "\<And>r. k \<le> r \<Longrightarrow> r < j \<Longrightarrow> dgt ops (?a j) (?a r)"
      by simp_all
    have ki: "k \<le> i" using i by simp
    have jn: "j < nsize" using j i by simp
    show "?P (Suc i) (?body i x)"
    proof (cases "dgt ops (?a i) (?a j)")
      case True
      have above: "dgt ops (?a i) (?a r)" if "k \<le> r" "r < i" for r
        using ntrans [OF True mx [OF that] that(1) _ j(1) jn ki i(2)] that i by simp
      have "\<not> dgt ops (?a r) (?a i)" if "k \<le> r \<and> r < Suc i" for r
      proof (cases "r = i")
        case True
        then show ?thesis using irrefl [OF ki i(2)] by simp
      next
        case False
        with that have r: "k \<le> r" "r < i" by simp_all
        show ?thesis using asym [OF above [OF r] ki i(2) r(1)] r i by simp
      qed
      moreover have "?body i x = (?a i, i)"
        using True by (simp add: x big col_abs_def)
      ultimately show ?thesis using above ki by simp
    next
      case False
      have "\<not> dgt ops (?a r) (?a j)" if "k \<le> r \<and> r < Suc i" for r
        using that mx [of r] False by (cases "r = i") simp_all
      moreover have "?body i x = (big, j)"
        using False by (simp add: x big col_abs_def)
      ultimately show ?thesis using j big fs by simp
    qed
  qed
  then show ?thesis by (simp add: irow_def pivot_scan_def)
qed

lemma wf_row_eqI:
  assumes "wf_state nsize s" and "wf_state nsize t" and "r < nsize" and "r' < nsize"
    and "\<And>c. c < nsize \<Longrightarrow> matrix s ! r ! c = matrix t ! r' ! c"
  shows "matrix s ! r = matrix t ! r'"
  by (rule nth_equalityI) (use assms in \<open>simp_all add: wf_stateD\<close>)

lemma numeric_on_col_abs:
  assumes num: "numeric_on ops v (map (\<lambda>r. matrix s ! r ! k) [k ..< nsize])"
    and r: "k \<le> r" "r < nsize"
  shows "v (col_abs ops s k r) = \<bar>v (matrix s ! r ! k)\<bar>"
    and "col_abs ops s k r \<in> set (map (\<lambda>r. matrix s ! r ! k) [k ..< nsize]) \<union>
           dneg ops ` set (map (\<lambda>r. matrix s ! r ! k) [k ..< nsize]) \<union> {d0 ops}"
proof -
  let ?xs = "map (\<lambda>r. matrix s ! r ! k) [k ..< nsize]"
  let ?x = "matrix s ! r ! k"
  have x: "?x \<in> set ?xs" using r by simp
  have neg: "v (dneg ops ?x) = - v ?x" using num x unfolding numeric_on_def by blast
  have pos: "dgt ops ?x (d0 ops) \<longleftrightarrow> v (d0 ops) < v ?x"
    using num x unfolding numeric_on_def by blast
  have zero: "v (d0 ops) = 0" using num unfolding numeric_on_def by blast
  show "v (col_abs ops s k r) = \<bar>v ?x\<bar>"
    using neg pos zero by (simp add: col_abs_def ABS_def)
  show "col_abs ops s k r \<in> set ?xs \<union> dneg ops ` set ?xs \<union> {d0 ops}"
    using x by (simp add: col_abs_def ABS_def)
qed

lemma numeric_on_compare:
  assumes num: "numeric_on ops v (map (\<lambda>r. matrix s ! r ! k) [k ..< nsize])"
    and r: "k \<le> r" "r < nsize" and r': "k \<le> r'" "r' < nsize"
  shows "dgt ops (col_abs ops s k r) (col_abs ops s k r') \<longleftrightarrow>
           \<bar>v (matrix s ! r' ! k)\<bar> < \<bar>v (matrix s ! r ! k)\<bar>"
    and "deq ops (col_abs ops s k r) (d0 ops) \<longleftrightarrow> \<bar>v (matrix s ! r ! k)\<bar> = 0"
proof -
  let ?S = "set (map (\<lambda>r. matrix s ! r ! k) [k ..< nsize]) \<union>
           dneg ops ` set (map (\<lambda>r. matrix s ! r ! k) [k ..< nsize]) \<union> {d0 ops}"
  note a = numeric_on_col_abs [OF num r]
  note b = numeric_on_col_abs [OF num r']
  have cmp: "\<And>x y. x \<in> ?S \<Longrightarrow> y \<in> ?S \<Longrightarrow> (dgt ops x y \<longleftrightarrow> v y < v x) \<and> (deq ops x y \<longleftrightarrow> v x = v y)"
    using num unfolding numeric_on_def by blast
  have zero: "v (d0 ops) = 0" "d0 ops \<in> ?S" using num unfolding numeric_on_def by simp_all
  show "dgt ops (col_abs ops s k r) (col_abs ops s k r') \<longleftrightarrow>
           \<bar>v (matrix s ! r' ! k)\<bar> < \<bar>v (matrix s ! r ! k)\<bar>"
    using cmp [OF a(2) b(2)] a(1) b(1) by simp
  show "deq ops (col_abs ops s k r) (d0 ops) \<longleftrightarrow> \<bar>v (matrix s ! r ! k)\<bar> = 0"
    using cmp [OF a(2) zero(2)] a(1) zero(1) by simp
qed

lemma numeric_on_gt_strict_weak:
  assumes num: "numeric_on ops v (map (\<lambda>r. matrix s ! r ! k) [k ..< nsize])"
  shows "gt_strict_weak ops (map (col_abs ops s k) [k ..< nsize])"
proof -
  have c: "dgt ops (col_abs ops s k r) (col_abs ops s k r') \<longleftrightarrow>
           \<bar>v (matrix s ! r' ! k)\<bar> < \<bar>v (matrix s ! r ! k)\<bar>"
    if "k \<le> r" "r < nsize" "k \<le> r'" "r' < nsize" for r r'
    by (rule numeric_on_compare(1) [OF num that])
  show ?thesis
    unfolding gt_strict_weak_def
  proof (intro conjI ballI impI)
    fix a b
    assume "a \<in> set (map (col_abs ops s k) [k ..< nsize])"
      "b \<in> set (map (col_abs ops s k) [k ..< nsize])" "dgt ops a b"
    then obtain r r' where "a = col_abs ops s k r" "b = col_abs ops s k r'"
      "k \<le> r" "r < nsize" "k \<le> r'" "r' < nsize" by auto
    then show "\<not> dgt ops b a" using c [of r r'] c [of r' r] \<open>dgt ops a b\<close> by simp
  next
    fix a b x
    assume "a \<in> set (map (col_abs ops s k) [k ..< nsize])"
      "b \<in> set (map (col_abs ops s k) [k ..< nsize])"
      "x \<in> set (map (col_abs ops s k) [k ..< nsize])" and h: "dgt ops x b \<and> \<not> dgt ops a b"
    then obtain r r' r'' where e: "a = col_abs ops s k r" "b = col_abs ops s k r'"
      "x = col_abs ops s k r''"
      and rr: "k \<le> r" "r < nsize" "k \<le> r'" "r' < nsize" "k \<le> r''" "r'' < nsize" by auto
    show "dgt ops x a"
      using h c [OF rr(5,6) rr(3,4)] c [OF rr(1,2) rr(3,4)] c [OF rr(5,6) rr(1,2)]
      unfolding e by linarith
  qed
qed

lemma numeric_on_no_nan:
  assumes "numeric_on nan_fpu v xs"
  shows "None \<notin> set xs"
proof
  assume "None \<in> set xs"
  then have "deq nan_fpu None None \<longleftrightarrow> v None = v None"
    using assms unfolding numeric_on_def by blast
  then show False by (simp add: nan_fpu_def)
qed

text \<open>
  Claim C5, as stated, fails: it speaks of every system state, and a column can hold a
  NaN. In the arithmetic \<open>nan_fpu\<close>, on the column \<open>[NaN, 2]\<close> the scan selects row 0, the
  NaN: \<^verbatim>\<open>2 > NaN\<close> is false. The absolute value of the selected entry is neither
  greater than nor equal to the absolute value 2 of row 1.
\<close>

theorem pivot_scan_nan_counterexample:
  "snd (pivot_scan nan_fpu 2 0
         \<lparr>matrix = [[None, Some 1], [Some 2, Some 1]], B = [Some 0, Some 0], C = [Some 0, Some 0]\<rparr>)
     = 0 \<and>
   col_abs nan_fpu
     \<lparr>matrix = [[None, Some 1], [Some 2, Some 1]], B = [Some 0, Some 0], C = [Some 0, Some 0]\<rparr> 0 0
     = None \<and>
   col_abs nan_fpu
     \<lparr>matrix = [[None, Some 1], [Some 2, Some 1]], B = [Some 0, Some 0], C = [Some 0, Some 0]\<rparr> 0 1
     = Some 2 \<and>
   \<not> dgt nan_fpu None (Some 2) \<and> \<not> deq nan_fpu None (Some 2)"
  by code_simp

text \<open>
  Claim C5, amended. Let the entries of column \<open>k\<close> in the rows \<open>k, \<dots>, nsize - 1\<close> be
  numbers (\<open>numeric_on\<close>: none is a NaN), with values \<open>v\<close>, and let \<^verbatim>\<open>1.0 == 1.0\<close> hold.
  Then the row \<open>irow\<close> that the scan of \<open>getPivot\<close> selects lies in \<open>k, \<dots>, nsize - 1\<close>, its
  entry has the maximum absolute value of the column, every earlier row has a smaller
  absolute value (the first occurrence wins), and a row whose absolute value is greater
  than all the others is the selected one. If that maximum is zero the call ends the
  run. Otherwise it returns a state \<open>p\<close> in which, if \<open>irow \<noteq> k\<close>, row \<open>irow\<close> of the matrix
  and entry \<open>irow\<close> of \<open>B\<close> are the former row \<open>k\<close> and entry \<open>k\<close>; row \<open>k\<close> and entry \<open>k\<close> are
  the former row \<open>irow\<close> and entry \<open>irow\<close>, divided by the pivot from the diagonal on
  unless the pivot compares equal to \<open>1.0\<close>; all other rows are untouched; and
  \<open>p[k][k] == 1.0\<close>.
\<close>

theorem getPivot_selects_max:
  fixes ops :: "'a fpu"
  assumes wf: "wf_state nsize s" and k: "k < nsize"
    and num: "numeric_on ops v (map (\<lambda>r. matrix s ! r ! k) [k ..< nsize])"
    and one: "deq ops (d1 ops) (d1 ops)"
  defines "irow \<equiv> snd (pivot_scan ops nsize k s)"
  defines "pv \<equiv> matrix s ! irow ! k"
  shows "k \<le> irow \<and> irow < nsize \<and>
     (\<forall>r. k \<le> r \<and> r < nsize \<longrightarrow> \<bar>v (matrix s ! r ! k)\<bar> \<le> \<bar>v (matrix s ! irow ! k)\<bar>) \<and>
     (\<forall>r. k \<le> r \<and> r < irow \<longrightarrow> \<bar>v (matrix s ! r ! k)\<bar> < \<bar>v (matrix s ! irow ! k)\<bar>) \<and>
     (\<forall>r'. k \<le> r' \<and> r' < nsize \<and>
         (\<forall>r. k \<le> r \<and> r < nsize \<and> r \<noteq> r' \<longrightarrow> \<bar>v (matrix s ! r ! k)\<bar> < \<bar>v (matrix s ! r' ! k)\<bar>)
         \<longrightarrow> irow = r') \<and>
     (if \<bar>v (matrix s ! irow ! k)\<bar> = 0 then getPivot ops nsize k s = Inl Singular
      else \<exists>p. getPivot ops nsize k s = Inr p \<and> wf_state nsize p \<and> C p = C s \<and>
             deq ops (matrix p ! k ! k) (d1 ops) \<and>
             (irow \<noteq> k \<longrightarrow> matrix p ! irow = matrix s ! k \<and> B p ! irow = B s ! k) \<and>
             (\<forall>r<nsize. r \<noteq> k \<and> r \<noteq> irow \<longrightarrow> matrix p ! r = matrix s ! r \<and> B p ! r = B s ! r) \<and>
             (\<forall>c<nsize. matrix p ! k ! c =
                (if deq ops pv (d1 ops) \<or> c < k then matrix s ! irow ! c
                 else if c = k then d1 ops
                 else ddiv ops (matrix s ! irow ! c) pv)) \<and>
             B p ! k = (if deq ops pv (d1 ops) then B s ! irow else ddiv ops (B s ! irow) pv))"
proof -
  have rng: "k \<le> irow" "irow < nsize"
    and big: "fst (pivot_scan ops nsize k s) = col_abs ops s k irow"
    using pivot_scan_range [OF k, of ops s] by (simp_all add: irow_def)
  note ord = numeric_on_gt_strict_weak [OF num]
  note cmp = numeric_on_compare [OF num]
  have mx: "\<bar>v (matrix s ! r ! k)\<bar> \<le> \<bar>v (matrix s ! irow ! k)\<bar>" if "k \<le> r \<and> r < nsize" for r
  proof -
    have "\<not> dgt ops (col_abs ops s k r) (col_abs ops s k irow)"
      using pivot_scan_max [OF k ord] that by (simp add: irow_def)
    then show ?thesis using cmp(1) [of r irow] that rng by simp
  qed
  have fs: "\<bar>v (matrix s ! r ! k)\<bar> < \<bar>v (matrix s ! irow ! k)\<bar>" if "k \<le> r \<and> r < irow" for r
  proof -
    have "dgt ops (col_abs ops s k irow) (col_abs ops s k r)"
      using pivot_scan_max [OF k ord] that by (simp add: irow_def)
    then show ?thesis using cmp(1) [of irow r] that rng by simp
  qed
  have uniq: "irow = r'"
    if "k \<le> r' \<and> r' < nsize \<and>
         (\<forall>r. k \<le> r \<and> r < nsize \<and> r \<noteq> r' \<longrightarrow> \<bar>v (matrix s ! r ! k)\<bar> < \<bar>v (matrix s ! r' ! k)\<bar>)" for r'
  proof (rule ccontr)
    assume "irow \<noteq> r'"
    then have "\<bar>v (matrix s ! irow ! k)\<bar> < \<bar>v (matrix s ! r' ! k)\<bar>" using that rng by simp
    then show False using mx [of r'] that by simp
  qed
  have sing: "deq ops (fst (pivot_scan ops nsize k s)) (d0 ops) \<longleftrightarrow> \<bar>v (matrix s ! irow ! k)\<bar> = 0"
    using cmp(2) [OF rng rng] by (simp add: big)
  have last: "if \<bar>v (matrix s ! irow ! k)\<bar> = 0 then getPivot ops nsize k s = Inl Singular
      else \<exists>p. getPivot ops nsize k s = Inr p \<and> wf_state nsize p \<and> C p = C s \<and>
             deq ops (matrix p ! k ! k) (d1 ops) \<and>
             (irow \<noteq> k \<longrightarrow> matrix p ! irow = matrix s ! k \<and> B p ! irow = B s ! k) \<and>
             (\<forall>r<nsize. r \<noteq> k \<and> r \<noteq> irow \<longrightarrow> matrix p ! r = matrix s ! r \<and> B p ! r = B s ! r) \<and>
             (\<forall>c<nsize. matrix p ! k ! c =
                (if deq ops pv (d1 ops) \<or> c < k then matrix s ! irow ! c
                 else if c = k then d1 ops
                 else ddiv ops (matrix s ! irow ! c) pv)) \<and>
             B p ! k = (if deq ops pv (d1 ops) then B s ! irow else ddiv ops (B s ! irow) pv)"
  proof (cases "\<bar>v (matrix s ! irow ! k)\<bar> = 0")
    case True
    then show ?thesis using sing by (simp add: getPivot_singular_iff)
  next
    case False
    then obtain p where p: "getPivot ops nsize k s = Inr p"
      using sing getPivot_singular_iff [of ops nsize k s] by (cases "getPivot ops nsize k s") auto
    note G = getPivot_result [OF wf k p, folded irow_def, folded pv_def]
    have "deq ops (matrix p ! k ! k) (d1 ops)"
      using G(3) [OF k k] one by (simp add: pv_def)
    moreover have "matrix p ! irow = matrix s ! k" if "irow \<noteq> k"
      by (rule wf_row_eqI [OF G(1) wf rng(2) k]) (use G(3) [OF rng(2)] that in simp)
    moreover have "B p ! irow = B s ! k" if "irow \<noteq> k"
      using G(4) [OF rng(2)] that by simp
    moreover have "matrix p ! r = matrix s ! r" if "r < nsize" "r \<noteq> k \<and> r \<noteq> irow" for r
      by (rule wf_row_eqI [OF G(1) wf that(1) that(1)]) (use G(3) [OF that(1)] that in simp)
    moreover have "B p ! r = B s ! r" if "r < nsize" "r \<noteq> k \<and> r \<noteq> irow" for r
      using G(4) [OF that(1)] that by simp
    moreover have "matrix p ! k ! c =
                (if deq ops pv (d1 ops) \<or> c < k then matrix s ! irow ! c
                 else if c = k then d1 ops
                 else ddiv ops (matrix s ! irow ! c) pv)" if "c < nsize" for c
      using G(3) [OF k that] by auto
    moreover have "B p ! k = (if deq ops pv (d1 ops) then B s ! irow else ddiv ops (B s ! irow) pv)"
      using G(4) [OF k] by simp
    ultimately show ?thesis using False p G(1,2) by simp
  qed
  show ?thesis using rng mx fs uniq last by blast
qed

lemma numeric_on_exact: "numeric_on exact_fpu (\<lambda>x. x) xs"
  by (auto simp: numeric_on_def exact_fpu_def)

theorem getPivot_selects_max_witness:
  "wf_state 2 \<lparr>matrix = [[1, 5], [- 3, 4]], B = [2, 6], C = [0, 0::rat]\<rparr> \<and> (0::nat) < 2 \<and>
   numeric_on exact_fpu (\<lambda>x. x)
     (map (\<lambda>r. matrix \<lparr>matrix = [[1, 5], [- 3, 4]], B = [2, 6], C = [0, 0]\<rparr> ! r ! 0) [0 ..< 2]) \<and>
   deq exact_fpu (d1 exact_fpu) (d1 exact_fpu) \<and>
   snd (pivot_scan exact_fpu 2 0 \<lparr>matrix = [[1, 5], [- 3, 4]], B = [2, 6], C = [0, 0]\<rparr>) = 1 \<and>
   (\<exists>p. getPivot exact_fpu 2 0 \<lparr>matrix = [[1, 5], [- 3, 4]], B = [2, 6], C = [0, 0]\<rparr> = Inr p \<and>
        matrix p ! 1 = [1, 5] \<and> B p ! 1 = 2 \<and> B p ! 0 = - 2 \<and>
        deq exact_fpu (matrix p ! 0 ! 0) (d1 exact_fpu))"
proof -
  let ?s = "\<lparr>matrix = [[1, 5], [- 3, 4]], B = [2, 6], C = [0, 0::rat]\<rparr>"
  have w: "wf_state 2 ?s" by (simp add: wf_state_def)
  have k: "(0::nat) < 2" by simp
  have o: "numeric_on exact_fpu (\<lambda>x. x) (map (\<lambda>r. matrix ?s ! r ! 0) [0 ..< 2])"
    by (rule numeric_on_exact)
  have e: "deq exact_fpu (d1 exact_fpu) (d1 exact_fpu)" by (simp add: exact_fpu_def)
  have i: "snd (pivot_scan exact_fpu 2 0 ?s) = 1" by code_simp
  have nz: "\<bar>matrix ?s ! 1 ! 0\<bar> \<noteq> 0" by simp
  have pv: "matrix ?s ! 1 ! 0 = - 3" "\<not> deq exact_fpu (- 3) (d1 exact_fpu)"
    "ddiv exact_fpu (B ?s ! 1) (- 3) = - 2"
    by (simp_all add: exact_fpu_def)
  note T = getPivot_selects_max [OF w k o e, unfolded i, THEN conjunct2, THEN conjunct2,
      THEN conjunct2, THEN conjunct2, THEN conjunct2]
  from T nz obtain p where "getPivot exact_fpu 2 0 ?s = Inr p"
    "matrix p ! 1 = matrix ?s ! 0" "B p ! 1 = B ?s ! 0"
    "deq exact_fpu (matrix p ! 0 ! 0) (d1 exact_fpu)"
    "B p ! 0 = (if deq exact_fpu (matrix ?s ! 1 ! 0) (d1 exact_fpu) then B ?s ! 1
       else ddiv exact_fpu (B ?s ! 1) (matrix ?s ! 1 ! 0))"
    by auto
  then have "getPivot exact_fpu 2 0 ?s = Inr p \<and>
        matrix p ! 1 = [1, 5] \<and> B p ! 1 = 2 \<and> B p ! 0 = - 2 \<and>
        deq exact_fpu (matrix p ! 0 ! 0) (d1 exact_fpu)"
    using pv by simp
  then show ?thesis using w k o e i by blast
qed

text \<open>
  Claim C3. Let a run of \<open>computeGauss\<close> on buffers of dimension \<open>nsize\<close> reach pass \<open>k\<close> in
  a state whose column \<open>k\<close> is zero from the diagonal down (the absolute value of each of
  these entries compares equal to \<open>0.0\<close>). Then \<open>getPivot\<close> ends the run there with the
  singular-matrix failure: \<open>computeGauss\<close> does not return, and when the run is that of
  \<open>main\<close>, no solution is computed, the message "The matrix is singular" is the last line
  printed, and the process ends by \<^verbatim>\<open>exit(-1)\<close>.
\<close>

theorem singular_column_ends_run:
  assumes "k < nsize" and "gauss_steps ops nsize k s0 = Inr s"
    and "\<forall>i. k \<le> i \<and> i < nsize \<longrightarrow> deq ops (col_abs ops s k i) (d0 ops)"
  shows "getPivot ops nsize k s = Inl Singular \<and>
         computeGauss ops nsize s0 = Inl Singular \<and>
         (\<forall>mem. allocate_memory junk nsize = Some mem \<and> s0 = initMatrix ops nsize mem \<longrightarrow>
            solve ops nsize mem = Inl Singular \<and>
            (\<forall>argv ws. parse_args argv 1024 [] = Inr (int nsize, ws) \<longrightarrow>
               main ops junk argv = (ws @ [Msg_singular], Exit_minus_1)))"
proof -
  have rng: "k \<le> snd (pivot_scan ops nsize k s)" "snd (pivot_scan ops nsize k s) < nsize"
    and big: "fst (pivot_scan ops nsize k s) = col_abs ops s k (snd (pivot_scan ops nsize k s))"
    using pivot_scan_range [OF assms(1), of ops s] by simp_all
  have g: "getPivot ops nsize k s = Inl Singular"
    using assms(3) rng big by (simp add: getPivot_singular_iff)
  have "gauss_steps ops nsize (Suc k) s0 = Inl Singular"
    using assms(2) g by (simp add: gauss_steps_Suc gauss_step_def)
  then have c: "computeGauss ops nsize s0 = Inl Singular"
    using assms(1) by (intro gauss_steps_fails [of "Suc k"]) simp_all
  have "solve ops nsize mem = Inl Singular \<and>
        (\<forall>argv ws. parse_args argv 1024 [] = Inr (int nsize, ws) \<longrightarrow>
               main ops junk argv = (ws @ [Msg_singular], Exit_minus_1))"
    if "allocate_memory junk nsize = Some mem \<and> s0 = initMatrix ops nsize mem" for mem
    using c that by (simp add: solve_def main_def)
  then show ?thesis using g c by blast
qed

text \<open>An arithmetic in which every \<^verbatim>\<open>int\<close> converts to \<open>0.0\<close>: under it the matrix of
  \<open>initMatrix\<close> is singular, which it is not under exact arithmetic. It serves to run
  \<open>main\<close> into the singular-matrix exit.\<close>

theorem singular_column_ends_run_witness:
  "(1::nat) < 2 \<and>
   gauss_steps exact_fpu 2 1 \<lparr>matrix = [[2, 2], [2, 2]], B = [0, 1], C = [7, 7]\<rparr>
     = Inr \<lparr>matrix = [[1, 1], [0, 0]], B = [0, 1], C = [7, 7]\<rparr> \<and>
   deq exact_fpu (col_abs exact_fpu \<lparr>matrix = [[1, 1], [0, 0]], B = [0, 1], C = [7, 7]\<rparr> 1 1)
     (d0 exact_fpu) \<and>
   computeGauss exact_fpu 2 \<lparr>matrix = [[2, 2], [2, 2]], B = [0, 1], C = [7, 7]\<rparr> = Inl Singular \<and>
   main (exact_fpu\<lparr>dofint := \<lambda>i. 0\<rparr>) (\<lambda>i. 7) [Opt_s 2] = ([Msg_singular], Exit_minus_1)"
proof -
  let ?init = "\<lparr>matrix = [[2, 2], [2, 2]], B = [0, 1], C = [7, 7::rat]\<rparr>"
  let ?s = "\<lparr>matrix = [[1, 1], [0, 0]], B = [0, 1], C = [7, 7::rat]\<rparr>"
  have k: "(1::nat) < 2" by simp
  have r: "gauss_steps exact_fpu 2 1 ?init = Inr ?s" by code_simp
  have z: "deq exact_fpu (col_abs exact_fpu ?s 1 1) (d0 exact_fpu)" by code_simp
  then have z': "\<forall>i. 1 \<le> i \<and> i < 2 \<longrightarrow> deq exact_fpu (col_abs exact_fpu ?s 1 i) (d0 exact_fpu)"
    by (auto simp: le_less_Suc_eq numeral_2_eq_2)
  let ?ops = "exact_fpu\<lparr>dofint := \<lambda>i. 0\<rparr>"
  let ?mem = "\<lparr>matrix = [[7, 7], [7, 7]], B = [7, 7], C = [7, 7::rat]\<rparr>"
  let ?zero = "initMatrix ?ops 2 ?mem"
  have a: "allocate_memory (\<lambda>i. 7) 2 = Some ?mem" by code_simp
  have k0: "(0::nat) < 2" by simp
  have r0: "gauss_steps ?ops 2 0 ?zero = Inr ?zero" by (rule gauss_steps_0)
  have t0: "?zero = \<lparr>matrix = [[0, 0], [0, 0]], B = [0, 0], C = [7, 7]\<rparr>" by code_simp
  have "deq ?ops (col_abs ?ops ?zero 0 0) (d0 ?ops)" "deq ?ops (col_abs ?ops ?zero 0 1) (d0 ?ops)"
    unfolding t0 by code_simp+
  then have z0: "\<forall>i. 0 \<le> i \<and> i < 2 \<longrightarrow> deq ?ops (col_abs ?ops ?zero 0 i) (d0 ?ops)"
    by (auto simp: less_Suc_eq numeral_2_eq_2)
  have p: "parse_args [Opt_s 2] 1024 [] = Inr (int 2, [])" by simp
  have "main ?ops (\<lambda>i. 7) [Opt_s 2] = ([] @ [Msg_singular], Exit_minus_1)"
    using singular_column_ends_run [OF k0 r0 z0, of "\<lambda>i. 7"] p a by blast
  then have m: "main ?ops (\<lambda>i. 7) [Opt_s 2] = ([Msg_singular], Exit_minus_1)" by simp
  have c: "computeGauss exact_fpu 2 ?init = Inl Singular"
    using singular_column_ends_run [OF k r z', of "\<lambda>i. 7"] by blast
  show ?thesis using k r z c m by blast
qed

section \<open>The run on the matrix of initMatrix\<close>

lemma exact_on_run_rat: "exact_on_run exact_fpu n"
  by (simp add: exact_on_run_def exact_fpu_def)

lemma wf_state_allocate_memory: "allocate_memory junk n = Some mem \<Longrightarrow> wf_state n mem"
  by (auto simp: wf_state_def allocate_memory_def list_all_length split: if_splits)

lemma allocate_memory_1: "\<exists>mem. allocate_memory junk 1 = Some mem"
  by (simp add: allocate_memory_def INT_MAX_def)

lemma initMatrix_result:
  fixes ops :: "'a fpu"
  assumes wf: "wf_state n s"
  defines "t \<equiv> initMatrix ops n s"
  shows "wf_state n t \<and> C t = C s \<and>
     (\<forall>r c. r < n \<longrightarrow> c < n \<longrightarrow>
        matrix t ! r ! c = dofint ops (if c < r then 2 * (int c + 1) else 2 * (int r + 1))) \<and>
     (\<forall>r. r < n \<longrightarrow> B t ! r = dofint ops (int r))"
proof -
  let ?v = "\<lambda>i j. dofint ops (if j < i then 2 * (int j + 1) else 2 * (int i + 1))"
  let ?inner = "\<lambda>i. for_up 0 n (\<lambda>j t. t\<lparr>matrix := matrix_upd (matrix t) i j (?v i j)\<rparr>)"
  let ?body = "\<lambda>i s. let s1 = ?inner i s in s1\<lparr>B := (B s1)[i := dofint ops (int i)]\<rparr>"
  let ?P = "\<lambda>i u. wf_state n u \<and> C u = C s \<and>
     (\<forall>r c. r < n \<longrightarrow> c < n \<longrightarrow> matrix u ! r ! c = (if r < i then ?v r c else matrix s ! r ! c)) \<and>
     (\<forall>r. r < n \<longrightarrow> B u ! r = (if r < i then dofint ops (int r) else B s ! r))"
  have "?P n (for_up 0 n ?body s)"
  proof (rule for_up_rule [where P = ?P])
    show "?P 0 s" using wf by simp
    show "0 \<le> n" by simp
  next
    fix i u
    assume i: "i < n" and P: "?P i u"
    from P have wfu: "wf_state n u" by simp
    note R = row_loop [OF wfu i, of 0 "\<lambda>j m. ?v i j", simplified]
    let ?u1 = "?inner i u"
    have "matrix (?body i u) ! r ! c = (if r < Suc i then ?v r c else matrix s ! r ! c)"
      if "r < n" "c < n" for r c
      using R P that by (auto simp: Let_def less_Suc_eq)
    moreover have "B (?body i u) ! r = (if r < Suc i then dofint ops (int r) else B s ! r)"
      if "r < n" for r
      using R P that wfu by (auto simp: Let_def less_Suc_eq nth_list_update wf_stateD)
    moreover have "wf_state n (?body i u)" using R by (auto simp: Let_def wf_state_def)
    moreover have "C (?body i u) = C s" using R P by (simp add: Let_def)
    ultimately show "?P (Suc i) (?body i u)" by blast
  qed
  then show ?thesis by (simp add: t_def initMatrix_def)
qed

lemma initMatrix_reduced_upto:
  assumes "wf_state n s"
  shows "reduced_upto ops n 0 (initMatrix ops n s)"
proof -
  note I = initMatrix_result [OF assms, of ops]
  have "(if c < r then 2 * (int c + 1) else 2 * (int r + 1)) = 2 * (int (min r c) + 1 - int 0)"
    for r c :: nat by (simp add: min_def)
  then show ?thesis using I by (simp add: reduced_upto_def)
qed

lemma exact_on_runD:
  assumes "exact_on_run ops n"
  shows "dofint ops 0 = d0 ops" and "dofint ops 1 = d1 ops"
    and "dgt ops (dofint ops 2) (d0 ops)" and "\<not> dgt ops (dofint ops 2) (dofint ops 2)"
    and "\<not> deq ops (dofint ops 2) (d0 ops)" and "\<not> deq ops (dofint ops 2) (d1 ops)"
    and "ddiv ops (dofint ops 2) (dofint ops 2) = d1 ops"
    and "ddiv ops (d0 ops) (dofint ops 2) = d0 ops"
    and "ddiv ops (d1 ops) (dofint ops 2) = dhalf ops"
    and "dmul ops (dofint ops 2) (d1 ops) = dofint ops 2"
    and "dmul ops (dofint ops 2) (d0 ops) = d0 ops"
    and "dmul ops (dofint ops 2) (dhalf ops) = d1 ops"
    and "dmul ops (d1 ops) (dhalf ops) = dhalf ops"
    and "dmul ops (d1 ops) (d0 ops) = d0 ops"
    and "\<And>m. 2 \<le> m \<Longrightarrow> m \<le> 2 * int n \<Longrightarrow> dsub ops (dofint ops m) (dofint ops 2) = dofint ops (m - 2)"
    and "\<And>m. 0 \<le> m \<Longrightarrow> m \<le> int n \<Longrightarrow> dsub ops (dofint ops m) (d0 ops) = dofint ops m"
    and "\<And>m. 1 \<le> m \<Longrightarrow> m \<le> int n \<Longrightarrow> dsub ops (dofint ops m) (d1 ops) = dofint ops (m - 1)"
    and "dsub ops (dhalf ops) (dhalf ops) = d0 ops"
    and "dsub ops (d0 ops) (dhalf ops) = dneg ops (dhalf ops)"
    and "dsub ops (dneg ops (dhalf ops)) (d0 ops) = dneg ops (dhalf ops)"
    and "deq ops (dneg ops (dhalf ops)) (dneg ops (dhalf ops))"
    and "deq ops (dhalf ops) (dhalf ops)" and "deq ops (d0 ops) (d0 ops)"
    and "\<not> deq ops (d0 ops) (dneg ops (dhalf ops))"
  using assms unfolding exact_on_run_def by simp_all

lemma reduced_uptoD:
  assumes "reduced_upto ops n k t"
  shows "wf_state n t"
    and "\<And>r c. r < n \<Longrightarrow> c < n \<Longrightarrow> matrix t ! r ! c =
          (if r < k then (if c < r then d0 ops else d1 ops)
           else if c < k then d0 ops
           else dofint ops (2 * (int (min r c) + 1 - int k)))"
    and "\<And>r. r < n \<Longrightarrow> B t ! r =
          (if r < k then (if r = 0 then d0 ops else dhalf ops)
           else dofint ops (int r - int (k - 1)))"
  using assms unfolding reduced_upto_def by simp_all

lemma reduced_scan:
  assumes E: "exact_on_run ops n" and R: "reduced_upto ops n k t" and k: "k < n"
  shows "pivot_scan ops n k t = (dofint ops 2, k)"
proof -
  have col: "matrix t ! i ! k = dofint ops 2" if "k \<le> i" "i < n" for i
    using reduced_uptoD(2) [OF R that(2) k] that by (simp add: min_def)
  have abs2: "ABS ops (dofint ops 2) = dofint ops 2"
    using exact_on_runD(3) [OF E] by (simp add: ABS_def)
  let ?body = "\<lambda>i (big, irow).
          let tmp = ABS ops (matrix t ! i ! k)
          in if dgt ops tmp big then (tmp, i) else (big, irow)"
  have "for_up (k + 1) n ?body (dofint ops 2, k) = (dofint ops 2, k)"
  proof (rule for_up_rule [where P = "\<lambda>_ x. x = (dofint ops 2, k)"])
    show "k + 1 \<le> n" using k by simp
  next
    fix i x
    assume "k + 1 \<le> i" "i < n" "x = (dofint ops 2, k)"
    then show "?body i x = (dofint ops 2, k)"
      using col [of i] abs2 exact_on_runD(4) [OF E] by simp
  qed simp
  then show ?thesis using col [OF le_refl k] abs2 by (simp add: pivot_scan_def)
qed

lemma reduced_step:
  fixes ops :: "'a fpu"
  assumes E: "exact_on_run ops n" and R: "reduced_upto ops n k t" and k: "k < n"
  shows "\<exists>t'. gauss_step ops n k t = Inr t' \<and> reduced_upto ops n (Suc k) t' \<and> C t' = C t"
proof -
  note e = exact_on_runD [OF E]
  note wf = reduced_uptoD(1) [OF R]
  note mt = reduced_uptoD(2) [OF R]
  note bt = reduced_uptoD(3) [OF R]
  have scan: "pivot_scan ops n k t = (dofint ops 2, k)" by (rule reduced_scan [OF E R k])
  have "\<exists>p. getPivot ops n k t = Inr p"
    using scan e(5) by (simp add: getPivot_def)
  then obtain p where p: "getPivot ops n k t = Inr p" ..
  have pv: "matrix t ! k ! k = dofint ops 2" using mt [OF k k] by simp
  note G = getPivot_result [OF wf k p, unfolded scan snd_conv pv]
  have mp: "matrix p ! r ! c =
      (if r \<le> k then (if c < r then d0 ops else d1 ops)
       else if c < k then d0 ops
       else dofint ops (2 * (int (min r c) + 1 - int k)))" if "r < n" "c < n" for r c
  proof (cases "r = k")
    case True
    have "matrix t ! k ! c = dofint ops 2" if "k < c" using mt [OF k \<open>c < n\<close>] that by (simp add: min_def)
    moreover have "matrix t ! k ! c = d0 ops" if "c < k" using mt [OF k \<open>c < n\<close>] that by simp
    ultimately show ?thesis using G(3) [OF that] True e(6,7) by auto
  next
    case False
    then show ?thesis using G(3) [OF that] mt [OF that] by auto
  qed
  have bp: "B p ! r =
      (if r \<le> k then (if r = 0 then d0 ops else dhalf ops)
       else dofint ops (int r - int (k - 1)))" if "r < n" for r
  proof (cases "r = k")
    case True
    have "B t ! k = (if k = 0 then d0 ops else d1 ops)"
      using bt [OF k] e(1,2) by (auto simp: of_nat_diff)
    then show ?thesis using G(4) [OF that] True e(6,8,9) by auto
  next
    case False
    then show ?thesis using G(4) [OF that] bt [OF that] by auto
  qed
  define q where "q = eliminate ops n k p"
  have step: "gauss_step ops n k t = Inr q" using p by (simp add: gauss_step_def q_def)
  note L = eliminate_result [OF G(1) k, of ops, folded q_def]
  have mq: "matrix q ! r ! c =
          (if r < Suc k then (if c < r then d0 ops else d1 ops)
           else if c < Suc k then d0 ops
           else dofint ops (2 * (int (min r c) + 1 - int (Suc k))))" if "r < n" "c < n" for r c
  proof (cases "k < r")
    case False
    then show ?thesis using L that mp [OF that] by auto
  next
    case True
    have q: "matrix q ! r ! c = eliminated_entry ops k p r c" using L that True by simp
    show ?thesis
    proof (cases "k < c")
      case False
      then show ?thesis using q True mp [OF that] by (auto simp: eliminated_entry_def)
    next
      case c: True
      let ?m = "2 * (int (min r c) + 1 - int k)"
      have rng: "2 \<le> ?m" "?m \<le> 2 * int n" using True c that by (auto simp: min_def)
      have "eliminated_entry ops k p r c =
          dsub ops (dofint ops ?m) (dmul ops (dofint ops 2) (d1 ops))"
        using True c mp [OF that] mp [OF that(1) k] mp [OF k that(2)]
        by (simp add: eliminated_entry_def)
      also have "\<dots> = dofint ops (?m - 2)" using e(15) [OF rng] by (simp add: e(10))
      also have "?m - 2 = 2 * (int (min r c) + 1 - int (Suc k))" by simp
      finally show ?thesis using q True c by simp
    qed
  qed
  have bq: "B q ! r =
          (if r < Suc k then (if r = 0 then d0 ops else dhalf ops)
           else dofint ops (int r - int (Suc k - 1)))" if "r < n" for r
  proof (cases "k < r")
    case False
    then show ?thesis using L that bp [OF that] by auto
  next
    case True
    have "B q ! r = eliminated_rhs ops k p r" using L that True by simp
    also have "\<dots> = dsub ops (dofint ops (int r - int (k - 1)))
        (dmul ops (dofint ops 2) (if k = 0 then d0 ops else dhalf ops))"
      using True bp [OF that] bp [OF k] mp [OF that k] by (simp add: eliminated_rhs_def)
    also have "\<dots> = dofint ops (int r - int k)"
    proof (cases "k = 0")
      case True
      then show ?thesis using e(16) [of "int r"] that by (simp add: e(11))
    next
      case False
      have "1 \<le> int r - int (k - 1)" "int r - int (k - 1) \<le> int n"
        using \<open>k < r\<close> that False by simp_all
      from e(17) [OF this] show ?thesis using False by (simp add: e(12) of_nat_diff)
    qed
    finally show ?thesis using True by simp
  qed
  have "wf_state n q" "C q = C t" using L G(2) by simp_all
  then have "reduced_upto ops n (Suc k) q \<and> C q = C t"
    unfolding reduced_upto_def using mq bq by blast
  then show ?thesis using step by blast
qed

lemma for_up_err_total:
  assumes "P lo s" and "lo \<le> n"
    and "\<And>i t. lo \<le> i \<Longrightarrow> i < n \<Longrightarrow> P i t \<Longrightarrow> \<exists>t'. body i t = Inr t' \<and> P (Suc i) t'"
  shows "\<exists>s'. for_up_err lo n body s = Inr s' \<and> P n s'"
  using assms(2,3)
proof (induction n rule: dec_induct)
  case base
  then show ?case using assms(1) by (simp add: for_up_err_done)
next
  case (step m)
  then obtain t where t: "for_up_err lo m body s = Inr t" "P m t" by auto
  from step.prems [OF step.hyps(1) _ t(2)] obtain t' where "body m t = Inr t'" "P (Suc m) t'"
    by auto
  then show ?case using t step.hyps(1) by (simp add: for_up_err_last)
qed

lemma computeGauss_reduced:
  assumes E: "exact_on_run ops n" and wf: "wf_state n s"
  shows "\<exists>s1. computeGauss ops n (initMatrix ops n s) = Inr s1 \<and> reduced_upto ops n n s1"
  unfolding computeGauss_def
proof (rule for_up_err_total [where P = "reduced_upto ops n"])
  show "reduced_upto ops n 0 (initMatrix ops n s)" by (rule initMatrix_reduced_upto [OF wf])
  show "0 \<le> n" by simp
next
  fix i t
  assume "i < n" "reduced_upto ops n i t"
  then show "\<exists>t'. gauss_step ops n i t = Inr t' \<and> reduced_upto ops n (Suc i) t'"
    using reduced_step [OF E] by blast
qed

lemma fold_fixed: "(\<And>c. c \<in> set cs \<Longrightarrow> f c a = a) \<Longrightarrow> fold f cs a = a"
  by (induction cs) simp_all

lemma rev_upt_last: "i < n \<Longrightarrow> rev [i ..< n] = (n - 1) # rev [i ..< n - 1]"
  by (cases n) simp_all

lemma reduced_solution:
  fixes ops :: "'a fpu"
  assumes E: "exact_on_run ops n" and R: "reduced_upto ops n n s1" and n: "1 \<le> n"
  defines "x \<equiv> C (solveGauss ops n s1)"
  shows "length x = n"
    and "n = 1 \<Longrightarrow> x ! 0 = d0 ops"
    and "2 \<le> n \<Longrightarrow> x ! (n - 1) = dhalf ops"
    and "2 \<le> n \<Longrightarrow> 0 < row \<Longrightarrow> row < n - 1 \<Longrightarrow> x ! row = d0 ops"
    and "2 \<le> n \<Longrightarrow> x ! 0 = dneg ops (dhalf ops)"
proof -
  note e = exact_on_runD [OF E]
  note wf = reduced_uptoD(1) [OF R]
  have A: "matrix s1 ! r ! c = d1 ops" if "r < c" "c < n" for r c
    using reduced_uptoD(2) [OF R _ that(2), of r] that by simp
  have b: "B s1 ! r = (if r = 0 then d0 ops else dhalf ops)" if "r < n" for r
    using reduced_uptoD(3) [OF R that] that by simp
  let ?F = "\<lambda>r col acc. dsub ops acc (dmul ops (matrix s1 ! r ! col) (x ! col))"
  have S: "length x = n" "\<And>r. r < n \<Longrightarrow> x ! r = fold (?F r) (rev [r + 1 ..< n]) (B s1 ! r)"
    using solveGauss_result [OF n wf, of ops] by (simp_all add: x_def back_substitution_entry_def)
  show "length x = n" by (rule S(1))
  have zz: "dsub ops (d0 ops) (d0 ops) = d0 ops" using e(16) [of 0] by (simp add: e(1))
  show "x ! 0 = d0 ops" if "n = 1" using S(2) [of 0] b [of 0] that by simp
  have last: "x ! (n - 1) = dhalf ops" if "2 \<le> n"
    using S(2) [of "n - 1"] b [of "n - 1"] that by simp
  then show "2 \<le> n \<Longrightarrow> x ! (n - 1) = dhalf ops" .
  have mid: "x ! r = d0 ops" if "2 \<le> n" "0 < r" "r < n - 1" for r
    using that(2,3)
  proof (induction r rule: measure_induct_rule [where f = "\<lambda>r. n - r"])
    case (less r)
    have rn: "r < n" "r + 1 < n" using less.prems by simp_all
    have xs: "x ! c = d0 ops" if "c \<in> set (rev [r + 1 ..< n - 1])" for c
      using that less.prems by (intro less.IH) auto
    have "x ! r = fold (?F r) (rev [r + 1 ..< n]) (dhalf ops)"
      using S(2) [OF rn(1)] b [OF rn(1)] less.prems by simp
    also have "\<dots> = fold (?F r) (rev [r + 1 ..< n - 1]) (?F r (n - 1) (dhalf ops))"
      by (subst rev_upt_last [OF rn(2)]) simp
    also have "?F r (n - 1) (dhalf ops) = d0 ops"
      using A [of r "n - 1"] rn last [OF \<open>2 \<le> n\<close>] by (simp add: e(13,18))
    also have "fold (?F r) (rev [r + 1 ..< n - 1]) (d0 ops) = d0 ops"
    proof (rule fold_fixed)
      fix c assume c: "c \<in> set (rev [r + 1 ..< n - 1])"
      then have "r < c" "c < n" by auto
      then show "?F r c (d0 ops) = d0 ops" using A [of r c] xs [OF c] by (simp add: e(14) zz)
    qed
    finally show ?case .
  qed
  then show "2 \<le> n \<Longrightarrow> 0 < row \<Longrightarrow> row < n - 1 \<Longrightarrow> x ! row = d0 ops" .
  show "x ! 0 = dneg ops (dhalf ops)" if n2: "2 \<le> n"
  proof -
    have rn: "0 < n" "0 + 1 < n" using n2 by simp_all
    have "x ! 0 = fold (?F 0) (rev [0 + 1 ..< n]) (d0 ops)"
      using S(2) [OF rn(1)] b [OF rn(1)] by simp
    also have "\<dots> = fold (?F 0) (rev [0 + 1 ..< n - 1]) (?F 0 (n - 1) (d0 ops))"
      by (subst rev_upt_last [OF rn(2)]) simp
    also have "?F 0 (n - 1) (d0 ops) = dneg ops (dhalf ops)"
      using A [of 0 "n - 1"] rn last [OF n2] by (simp add: e(13,19))
    also have "fold (?F 0) (rev [0 + 1 ..< n - 1]) (dneg ops (dhalf ops)) = dneg ops (dhalf ops)"
    proof (rule fold_fixed)
      fix c assume c: "c \<in> set (rev [0 + 1 ..< n - 1])"
      then have c': "0 < c" "c < n - 1" "c < n" by auto
      then show "?F 0 c (dneg ops (dhalf ops)) = dneg ops (dhalf ops)"
        using A [of 0 c] mid [OF n2 c'(1,2)] by (simp add: e(14,20))
    qed
    finally show ?thesis .
  qed
qed

lemma verify_passes:
  assumes "\<And>i. i < n \<Longrightarrow>
       deq ops (C s ! i) (if i = 0 then dneg ops (dhalf ops)
                          else if i = n - 1 then dhalf ops else d0 ops)"
  shows "verify ops n s = Inr ()"
proof -
  have "\<exists>u. verify ops n s = Inr u \<and> True"
    unfolding verify_def
  proof (rule for_up_err_total [where P = "\<lambda>_ _. True"])
    fix i and u :: unit
    assume i: "i < n"
    show "\<exists>t'. (if i = 0 then
             (if deq ops (C s ! i) (dneg ops (dhalf ops)) then Inr u else Inl AssertFailed)
           else if i = n - 1 then
             (if deq ops (C s ! i) (dhalf ops) then Inr u else Inl AssertFailed)
           else
             (if deq ops (C s ! i) (d0 ops) then Inr u else Inl AssertFailed)) = Inr t' \<and> True"
      using assms [OF i] by (cases "i = 0"; cases "i = n - 1") simp_all
  qed simp_all
  then show ?thesis by simp
qed

lemma solve_on_initMatrix:
  fixes ops :: "'a fpu"
  assumes E: "exact_on_run ops n" and wf: "wf_state n s0" and n: "1 \<le> n"
  shows "\<exists>s1. reduced_upto ops n n s1 \<and> solve ops n s0 = Inr (solveGauss ops n s1)"
proof -
  from computeGauss_reduced [OF E wf] obtain s1 where
    "computeGauss ops n (initMatrix ops n s0) = Inr s1" "reduced_upto ops n n s1" by blast
  then show ?thesis by (auto simp: solve_def)
qed

text \<open>
  Claim C1. Let the double arithmetic be exact on the values this run meets
  (\<open>exact_on_run\<close>: the integers up to \<open>2 * n\<close>, and \<open>0.5\<close> and \<open>-0.5\<close>; IEEE-754 doubles
  are, for every dimension an \<^verbatim>\<open>int\<close> can hold). Then for every dimension \<open>n \<ge> 2\<close>, on
  buffers of dimension \<open>n\<close> with any content, \<open>initMatrix\<close>, \<open>computeGauss\<close> and
  \<open>solveGauss\<close> end with a solution vector \<open>C\<close> of \<open>n\<close> entries with \<open>C[0]\<close> the value
  \<open>-0.5\<close>, \<open>C[n-1]\<close> the value \<open>0.5\<close>, and \<open>C[i]\<close> the value \<open>0.0\<close> for \<open>0 < i < n - 1\<close>, and
  the checks of \<open>main\<close> on this vector (\<open>verify\<close>, with \<^verbatim>\<open>==\<close>) all pass.
\<close>

theorem pipeline_solution:
  fixes ops :: "'a fpu"
  assumes "2 \<le> n" and "exact_on_run ops n" and "wf_state n s0"
  shows "\<exists>s'. solve ops n s0 = Inr s' \<and> length (C s') = n \<and>
           C s' ! 0 = dneg ops (dhalf ops) \<and> C s' ! (n - 1) = dhalf ops \<and>
           (\<forall>i. 0 < i \<and> i < n - 1 \<longrightarrow> C s' ! i = d0 ops) \<and>
           verify ops n s' = Inr ()"
proof -
  note e = exact_on_runD [OF assms(2)]
  have n1: "1 \<le> n" using assms(1) by simp
  have sol: "length (C (solveGauss ops n s1)) = n \<and>
           C (solveGauss ops n s1) ! 0 = dneg ops (dhalf ops) \<and>
           C (solveGauss ops n s1) ! (n - 1) = dhalf ops \<and>
           (\<forall>i. 0 < i \<and> i < n - 1 \<longrightarrow> C (solveGauss ops n s1) ! i = d0 ops) \<and>
           verify ops n (solveGauss ops n s1) = Inr ()"
    if R: "reduced_upto ops n n s1" for s1
  proof -
    note X = reduced_solution [OF assms(2) R n1]
    have "verify ops n (solveGauss ops n s1) = Inr ()"
    proof (rule verify_passes)
      fix i assume "i < n"
      then show "deq ops (C (solveGauss ops n s1) ! i)
          (if i = 0 then dneg ops (dhalf ops) else if i = n - 1 then dhalf ops else d0 ops)"
        using X(3,5) [OF assms(1)] X(4) [OF assms(1), of i] e(21,22,23) by auto
    qed
    then show ?thesis using X(1) X(3,5) [OF assms(1)] X(4) [OF assms(1)] by simp
  qed
  from solve_on_initMatrix [OF assms(2,3) n1] obtain s1 where
    s1: "reduced_upto ops n n s1" "solve ops n s0 = Inr (solveGauss ops n s1)" by blast
  show ?thesis using s1(2) sol [OF s1(1)] by simp
qed

theorem pipeline_solution_witness:
  "(2::nat) \<le> 3 \<and> exact_on_run exact_fpu 3 \<and>
   wf_state 3 \<lparr>matrix = [[7, 7, 7], [7, 7, 7], [7, 7, 7]], B = [7, 7, 7], C = [7, 7, 7::rat]\<rparr> \<and>
   (\<exists>s'. solve exact_fpu 3
           \<lparr>matrix = [[7, 7, 7], [7, 7, 7], [7, 7, 7]], B = [7, 7, 7], C = [7, 7, 7]\<rparr> = Inr s' \<and>
      C s' ! 0 = - (1 / 2) \<and> C s' ! 1 = 0 \<and> C s' ! 2 = 1 / 2 \<and> verify exact_fpu 3 s' = Inr ())"
proof -
  let ?mem = "\<lparr>matrix = [[7, 7, 7], [7, 7, 7], [7, 7, 7]], B = [7, 7, 7], C = [7, 7, 7::rat]\<rparr>"
  have n: "(2::nat) \<le> 3" by simp
  have e: "exact_on_run exact_fpu 3" by (rule exact_on_run_rat)
  have w: "wf_state 3 ?mem" by (simp add: wf_state_def)
  from pipeline_solution [OF n e w] obtain s' where
    s: "solve exact_fpu 3 ?mem = Inr s'"
    and x: "C s' ! 0 = dneg exact_fpu (dhalf exact_fpu)" "C s' ! (3 - 1) = dhalf exact_fpu"
      "\<forall>i. 0 < i \<and> i < 3 - 1 \<longrightarrow> C s' ! i = d0 exact_fpu"
    and v: "verify exact_fpu 3 s' = Inr ()"
    by blast
  have "C s' ! 0 = - (1 / 2)" "C s' ! 2 = 1 / 2" using x(1,2) by (simp_all add: exact_fpu_def)
  moreover have "C s' ! 1 = 0" using x(3) [rule_format, of 1] by (simp add: exact_fpu_def)
  ultimately show ?thesis using n e w s v by blast
qed

text \<open>
  Claim C4 fails on the code. For dimension 1, under the same exact arithmetic, the
  pipeline does produce the solution \<open>x = [0.0]\<close>, but the check of \<open>main\<close> for index 0 is
  \<^verbatim>\<open>assert (C[n] == -0.5)\<close>, whatever the dimension: the assertion fails and the process
  aborts after the size and time lines, without "Correct solution found.".
\<close>

theorem size_one_assertion_fails:
  fixes ops :: "'a fpu"
  assumes "exact_on_run ops 1" and "wf_state 1 s0"
  shows "\<exists>s'. solve ops 1 s0 = Inr s' \<and> C s' = [d0 ops] \<and>
           verify ops 1 s' = Inl AssertFailed \<and>
           main ops junk [Opt_s 1] = ([Msg_size 1, Msg_time], Aborted)"
proof -
  note e = exact_on_runD [OF assms(1)]
  have sol: "C (solveGauss ops 1 s1) = [d0 ops] \<and> verify ops 1 (solveGauss ops 1 s1) = Inl AssertFailed"
    if R: "reduced_upto ops 1 1 s1" for s1
  proof -
    note X = reduced_solution(1,2) [OF assms(1) R le_refl]
    have c: "C (solveGauss ops 1 s1) = [d0 ops]"
      using X by (cases "C (solveGauss ops 1 s1)") simp_all
    have x0: "C (solveGauss ops 1 s1) ! 0 = d0 ops" using X(2) by simp
    have "verify ops 1 (solveGauss ops 1 s1) = Inl AssertFailed"
      using e(24) x0 by (simp add: verify_def for_up_err_unfold for_up_err_done)
    then show ?thesis using c by simp
  qed
  from solve_on_initMatrix [OF assms(1,2) le_refl] obtain s1 where
    s1: "reduced_upto ops 1 1 s1" "solve ops 1 s0 = Inr (solveGauss ops 1 s1)" by blast
  obtain mem where mem: "allocate_memory junk 1 = Some mem"
    using allocate_memory_1 [of junk] by blast
  from solve_on_initMatrix [OF assms(1) wf_state_allocate_memory [OF mem] le_refl] obtain s2 where
    s2: "reduced_upto ops 1 1 s2"
      "solve ops 1 mem = Inr (solveGauss ops 1 s2)" by blast
  have "main ops junk [Opt_s 1] = ([Msg_size 1, Msg_time], Aborted)"
    using mem s2(2) sol [OF s2(1)] by (simp add: main_def)
  then show ?thesis using s1(2) sol [OF s1(1)] by simp
qed

theorem size_one_assertion_fails_witness:
  "exact_on_run exact_fpu 1 \<and> wf_state 1 \<lparr>matrix = [[7]], B = [7], C = [7::rat]\<rparr> \<and>
   (\<exists>s'. solve exact_fpu 1 \<lparr>matrix = [[7]], B = [7], C = [7]\<rparr> = Inr s' \<and> C s' = [0]) \<and>
   main exact_fpu (\<lambda>i. 7) [Opt_s 1] = ([Msg_size 1, Msg_time], Aborted)"
proof -
  let ?mem = "\<lparr>matrix = [[7]], B = [7], C = [7::rat]\<rparr>"
  have e: "exact_on_run exact_fpu 1" by (rule exact_on_run_rat)
  have w: "wf_state 1 ?mem" by (simp add: wf_state_def)
  from size_one_assertion_fails [OF e w, of "\<lambda>i. 7"] obtain s' where
    "solve exact_fpu 1 ?mem = Inr s'" "C s' = [d0 exact_fpu]"
    "main exact_fpu (\<lambda>i. 7) [Opt_s 1] = ([Msg_size 1, Msg_time], Aborted)"
    by blast
  moreover have "d0 exact_fpu = 0" by (simp add: exact_fpu_def)
  ultimately show ?thesis using e w by auto
qed

section \<open>The command line\<close>

lemma parse_args_sizes:
  "Opt_other \<notin> set argv \<Longrightarrow>
   \<exists>nsize ws. parse_args argv n out = Inr (nsize, out @ ws) \<and>
     ((\<not> list_ex positive_s argv \<and> nsize = n) \<or>
      (\<exists>pre v post. argv = pre @ Opt_s v # post \<and> 0 < v \<and> \<not> list_ex positive_s post \<and> nsize = v)) \<and>
     length ws = length (filter (\<lambda>a. \<not> positive_s a) argv) \<and> list_all is_warning ws"
proof (induction argv arbitrary: n out)
  case Nil
  then show ?case by simp
next
  case (Cons a argv)
  then obtain v where a: "a = Opt_s v" and rest: "Opt_other \<notin> set argv"
    by (cases a) auto
  show ?case
  proof (cases "0 < v")
    case True
    from Cons.IH [OF rest, of v out] obtain nsize ws where
      r: "parse_args argv v out = Inr (nsize, out @ ws)"
      and d: "(\<not> list_ex positive_s argv \<and> nsize = v) \<or>
        (\<exists>pre w post. argv = pre @ Opt_s w # post \<and> 0 < w \<and> \<not> list_ex positive_s post \<and> nsize = w)"
      and l: "length ws = length (filter (\<lambda>a. \<not> positive_s a) argv)" "list_all is_warning ws"
      by blast
    from d have "\<exists>pre w post. a # argv = pre @ Opt_s w # post \<and> 0 < w \<and>
        \<not> list_ex positive_s post \<and> nsize = w"
    proof
      assume "\<not> list_ex positive_s argv \<and> nsize = v"
      then have "a # argv = [] @ Opt_s v # argv \<and> 0 < v \<and> \<not> list_ex positive_s argv \<and> nsize = v"
        using a True by simp
      then show ?thesis by blast
    next
      assume "\<exists>pre w post. argv = pre @ Opt_s w # post \<and> 0 < w \<and> \<not> list_ex positive_s post \<and> nsize = w"
      then obtain pre w post where
        "argv = pre @ Opt_s w # post" "0 < w" "\<not> list_ex positive_s post" "nsize = w" by blast
      then have "a # argv = (a # pre) @ Opt_s w # post \<and> 0 < w \<and> \<not> list_ex positive_s post \<and> nsize = w"
        by simp
      then show ?thesis by blast
    qed
    then show ?thesis using r l a True by simp
  next
    case False
    from Cons.IH [OF rest, of n "out @ [Warn_negative n]"] obtain nsize ws where
      r: "parse_args argv n (out @ [Warn_negative n]) = Inr (nsize, (out @ [Warn_negative n]) @ ws)"
      and d: "(\<not> list_ex positive_s argv \<and> nsize = n) \<or>
        (\<exists>pre w post. argv = pre @ Opt_s w # post \<and> 0 < w \<and> \<not> list_ex positive_s post \<and> nsize = w)"
      and l: "length ws = length (filter (\<lambda>a. \<not> positive_s a) argv)" "list_all is_warning ws"
      by blast
    from d have d': "(\<not> list_ex positive_s (a # argv) \<and> nsize = n) \<or>
        (\<exists>pre w post. a # argv = pre @ Opt_s w # post \<and> 0 < w \<and> \<not> list_ex positive_s post \<and> nsize = w)"
    proof
      assume "\<not> list_ex positive_s argv \<and> nsize = n"
      then show ?thesis using a False by simp
    next
      assume "\<exists>pre w post. argv = pre @ Opt_s w # post \<and> 0 < w \<and> \<not> list_ex positive_s post \<and> nsize = w"
      then obtain pre w post where
        "argv = pre @ Opt_s w # post" "0 < w" "\<not> list_ex positive_s post" "nsize = w" by blast
      then have "a # argv = (a # pre) @ Opt_s w # post \<and> 0 < w \<and> \<not> list_ex positive_s post \<and> nsize = w"
        by simp
      then show ?thesis by blast
    qed
    have "parse_args (a # argv) n out = Inr (nsize, out @ (Warn_negative n # ws))"
      using r a False by simp
    moreover have "length (Warn_negative n # ws) = length (filter (\<lambda>a. \<not> positive_s a) (a # argv))"
      using l a False by simp
    moreover have "list_all is_warning (Warn_negative n # ws)"
      using l by (simp add: is_warning_def)
    ultimately show ?thesis using d' by blast
  qed
qed

lemma parse_args_other:
  "Opt_other \<in> set argv \<Longrightarrow>
   \<exists>ws. parse_args argv n out = Inl (out @ ws) \<and> list_all is_warning ws"
proof (induction argv arbitrary: n out)
  case Nil
  then show ?case by simp
next
  case (Cons a argv)
  show ?case
  proof (cases a)
    case Opt_other
    then show ?thesis by simp
  next
    case (Opt_s v)
    with Cons.prems have rest: "Opt_other \<in> set argv" by simp
    show ?thesis
    proof (cases "0 < v")
      case True
      then show ?thesis using Cons.IH [OF rest, of v out] Opt_s by simp
    next
      case False
      from Cons.IH [OF rest, of n "out @ [Warn_negative n]"] obtain ws where
        "parse_args argv n (out @ [Warn_negative n]) = Inl ((out @ [Warn_negative n]) @ ws)"
        "list_all is_warning ws" by blast
      then have "parse_args (a # argv) n out = Inl (out @ (Warn_negative n # ws)) \<and>
          list_all is_warning (Warn_negative n # ws)"
        using Opt_s False by (simp add: is_warning_def)
      then show ?thesis by blast
    qed
  qed
qed

text \<open>From the dimension 46341 on, \<^verbatim>\<open>size*size\<close> in \<open>allocate_memory\<close> overflows \<^verbatim>\<open>int\<close>: nothing
  is known of the run after the option loop.\<close>

lemma main_int_overflow:
  assumes "46341 \<le> v"
  shows "main ops junk [Opt_s v] = ([], Undefined)"
proof -
  have "(46341::int) * 46341 \<le> v * v" using assms by (intro mult_mono) simp_all
  then have "allocate_memory junk (nat v) = None"
    using assms by (simp add: allocate_memory_def INT_MAX_def)
  then show ?thesis using assms by (simp add: main_def)
qed

text \<open>
  Claim C10, as stated, fails: a non-positive \<^verbatim>\<open>-s\<close> value does not bring back the
  default. After \<^verbatim>\<open>-s 5 -s 0\<close> the warning reads "using 5" and the dimension is 5.
\<close>

theorem parse_args_retains_default_counterexample:
  "parse_args [Opt_s 5, Opt_s 0] 1024 [] = Inr (5, [Warn_negative 5]) \<and> (5::int) \<noteq> 1024"
  by simp

text \<open>
  Claim C10, amended. For every command line:
  \<^item> if no flag is unrecognised, the option loop ends with a dimension \<open>nsize\<close> that is the
    value of the last \<^verbatim>\<open>-s\<close> with a positive value, and 1024 if there is none; a \<^verbatim>\<open>-s\<close>
    with a non-positive value prints one warning and leaves the dimension as it was
    (one warning per such flag, and nothing else is printed by the loop);
  \<^item> if some flag is unrecognised, \<^verbatim>\<open>main\<close> ends by \<^verbatim>\<open>abort\<close> (a non-zero status), and
    all it has printed are warnings of the option loop: no system was solved.
\<close>

theorem main_command_line:
  "(Opt_other \<notin> set argv \<longrightarrow>
      (\<exists>nsize ws. parse_args argv 1024 [] = Inr (nsize, ws) \<and>
         ((\<not> list_ex positive_s argv \<and> nsize = 1024) \<or>
          (\<exists>pre v post. argv = pre @ Opt_s v # post \<and> 0 < v \<and>
             \<not> list_ex positive_s post \<and> nsize = v)) \<and>
         length ws = length (filter (\<lambda>a. \<not> positive_s a) argv) \<and> list_all is_warning ws)) \<and>
   (Opt_other \<in> set argv \<longrightarrow>
      (\<exists>ws. main ops junk argv = (ws, Aborted) \<and> list_all is_warning ws))"
proof (intro conjI impI)
  assume "Opt_other \<notin> set argv"
  from parse_args_sizes [OF this, of 1024 "[]"]
  show "\<exists>nsize ws. parse_args argv 1024 [] = Inr (nsize, ws) \<and>
         ((\<not> list_ex positive_s argv \<and> nsize = 1024) \<or>
          (\<exists>pre v post. argv = pre @ Opt_s v # post \<and> 0 < v \<and>
             \<not> list_ex positive_s post \<and> nsize = v)) \<and>
         length ws = length (filter (\<lambda>a. \<not> positive_s a) argv) \<and> list_all is_warning ws"
    by simp
next
  assume "Opt_other \<in> set argv"
  from parse_args_other [OF this, of 1024 "[]"]
  show "\<exists>ws. main ops junk argv = (ws, Aborted) \<and> list_all is_warning ws"
    by (auto simp: main_def)
qed

theorem main_command_line_witness:
  "Opt_other \<notin> set [Opt_s 5, Opt_s 0] \<and>
   (\<exists>ws. parse_args [Opt_s 5, Opt_s 0] 1024 [] = Inr (5, ws) \<and> length ws = 1) \<and>
   Opt_other \<in> set [Opt_s 5, Opt_other] \<and>
   (\<exists>ws. main exact_fpu (\<lambda>_. 0) [Opt_s 5, Opt_other] = (ws, Aborted))"
  using main_command_line [of "[Opt_s 5, Opt_s 0]" exact_fpu "\<lambda>_. 0"]
    main_command_line [of "[Opt_s 5, Opt_other]" exact_fpu "\<lambda>_. 0"]
  by auto

end
